theory Spec2Isabelle
  imports Main "HOL-Library.Word" "HOL-Library.Monad_Syntax"
begin

unbundle bit_operations_syntax

section \<open>The pool allocator of custom\_memory\_allocator.c\<close>

text \<open>
  The allocator keeps its block headers inside the byte array \<open>memory_pool\<close> and reaches
  them through casts and pointer arithmetic. The model keeps that: a pointer is a 64-bit
  address, the pool is an array of 8-byte cells, and a header field is read and written
  at its address. The layout is the one of an LP64 target: \<open>size_t\<close> and pointers are
  8 bytes, \<open>int\<close> is 4 bytes, so \<open>BlockHeader\<close> has \<open>size\<close> at offset 0, \<open>is_free\<close>
  in the low half of the cell at offset 8 (the high half is padding) and \<open>next_free\<close>
  at offset 16; \<open>sizeof(BlockHeader)\<close> is 24 and \<open>ALIGNMENT\<close> is 8.

  An access that is not a whole cell of the pool (outside the array, or at an address
  that is not a multiple of 8 from its start) has no result in the model: the operation
  returns \<open>None\<close>, as does a loop that never ends. The \<open>int\<close> flag
  \<open>allocator_initialized\<close> only ever holds 0 or 1 and is a \<open>bool\<close> here.
\<close>

type_synonym size_t = "64 word"
type_synonym ptr = "64 word"

text \<open>
  Modelled from the spec: \<open>POOL_SIZE\<close> is the fixed capacity of the pool. The source
  defines the macro under the spelling \<open>POOL_size\<close>, as \<open>1024 * 1024\<close>, and reads it as
  \<open>POOL_SIZE\<close> everywhere else.
\<close>

definition POOL_SIZE :: size_t where
  "POOL_SIZE = 1024 * 1024"

definition sizeof_BlockHeader :: size_t where
  "sizeof_BlockHeader = 24"

definition ALIGNMENT :: size_t where
  "ALIGNMENT = 8"

definition ALIGN :: "size_t \<Rightarrow> size_t" where
  "ALIGN sz = (sz + (ALIGNMENT - 1)) AND NOT (ALIGNMENT - 1)"

definition NULL :: ptr where
  "NULL = 0"

record state =
  pool_base :: ptr
  memory_pool :: "nat \<Rightarrow> 64 word"
  free_list_head :: ptr
  allocator_initialized :: bool

text \<open>
  \<open>pool_base\<close> is the address of \<open>memory_pool[0]\<close>; cell \<open>i\<close> of \<open>memory_pool\<close> holds
  the bytes \<open>8 * i\<close> to \<open>8 * i + 7\<close> of the array. A static array starts out zeroed.
\<close>

definition startup :: "ptr \<Rightarrow> state" where
  "startup base = \<lparr>pool_base = base, memory_pool = (\<lambda>_. 0), free_list_head = NULL,
     allocator_initialized = False\<rparr>"

subsection \<open>Memory access\<close>

definition cell_of :: "state \<Rightarrow> ptr \<Rightarrow> nat option" where
  "cell_of s a =
     (if pool_base s \<le> a \<and> a - pool_base s < POOL_SIZE \<and> unat (a - pool_base s) mod 8 = 0
      then Some (unat (a - pool_base s) div 8) else None)"

definition load64 :: "state \<Rightarrow> ptr \<Rightarrow> 64 word option" where
  "load64 s a = map_option (memory_pool s) (cell_of s a)"

definition store64 :: "state \<Rightarrow> ptr \<Rightarrow> 64 word \<Rightarrow> state option" where
  "store64 s a v = map_option (\<lambda>i. s\<lparr>memory_pool := (memory_pool s)(i := v)\<rparr>) (cell_of s a)"

definition get_size :: "state \<Rightarrow> ptr \<Rightarrow> size_t option" where
  "get_size s b = load64 s b"

definition set_size :: "state \<Rightarrow> ptr \<Rightarrow> size_t \<Rightarrow> state option" where
  "set_size s b v = store64 s b v"

definition get_is_free :: "state \<Rightarrow> ptr \<Rightarrow> 32 word option" where
  "get_is_free s b = map_option ucast (load64 s (b + 8))"

definition set_is_free :: "state \<Rightarrow> ptr \<Rightarrow> 32 word \<Rightarrow> state option" where
  "set_is_free s b v =
     (case load64 s (b + 8) of
        None \<Rightarrow> None
      | Some w \<Rightarrow> store64 s (b + 8) ((w AND NOT (mask 32)) OR ucast v))"

definition get_next_free :: "state \<Rightarrow> ptr \<Rightarrow> ptr option" where
  "get_next_free s b = load64 s (b + 16)"

definition set_next_free :: "state \<Rightarrow> ptr \<Rightarrow> ptr \<Rightarrow> state option" where
  "set_next_free s b v = store64 s (b + 16) v"

subsection \<open>my\_allocator\_init\<close>

definition my_allocator_init :: "state \<Rightarrow> state option" where
  "my_allocator_init s =
     (if allocator_initialized s then Some s
      else do {
        s1 \<leftarrow> Some (s\<lparr>free_list_head := pool_base s\<rparr>);
        s2 \<leftarrow> set_size s1 (free_list_head s1) POOL_SIZE;
        s3 \<leftarrow> set_is_free s2 (free_list_head s2) 1;
        s4 \<leftarrow> set_next_free s3 (free_list_head s3) NULL;
        Some (s4\<lparr>allocator_initialized := True\<rparr>)
      })"

subsection \<open>my\_malloc\<close>

definition total_needed_size :: "size_t \<Rightarrow> size_t" where
  "total_needed_size sz =
     (if ALIGN (sz + sizeof_BlockHeader) < sizeof_BlockHeader + ALIGNMENT
      then sizeof_BlockHeader + ALIGNMENT
      else ALIGN (sz + sizeof_BlockHeader))"

text \<open>
  The same size in the words of the spec, on unbounded numbers ("\<open>needed =
  align_up(requested_size + header_size)\<close>, then clamps upward to at least
  \<open>header_size + alignment_unit\<close>"), to compare \<open>total_needed_size\<close> with.
\<close>

definition needed_spec :: "nat \<Rightarrow> nat" where
  "needed_spec n = max 32 ((n + 24 + 7) div 8 * 8)"

text \<open>The branch of the loop body that splits the block found (lines 108 to 122).\<close>

definition split_block :: "state \<Rightarrow> size_t \<Rightarrow> ptr \<Rightarrow> ptr \<Rightarrow> (state \<times> ptr) option" where
  "split_block s needed current prev_free =
     do {
       sz \<leftarrow> get_size s current;
       s1 \<leftarrow> set_size s (current + needed) (sz - needed);
       s2 \<leftarrow> set_is_free s1 (current + needed) 1;
       nx \<leftarrow> get_next_free s2 current;
       s3 \<leftarrow> set_next_free s2 (current + needed) nx;
       s4 \<leftarrow> set_size s3 current needed;
       s5 \<leftarrow> set_is_free s4 current 0;
       s6 \<leftarrow> set_next_free s5 current NULL;
       s7 \<leftarrow> (if prev_free \<noteq> NULL then set_next_free s6 prev_free (current + needed)
              else Some (s6\<lparr>free_list_head := current + needed\<rparr>));
       Some (s7, current + sizeof_BlockHeader)
     }"

text \<open>The branch that hands out the entire block (lines 128 to 136).\<close>

definition use_entire_block :: "state \<Rightarrow> ptr \<Rightarrow> ptr \<Rightarrow> (state \<times> ptr) option" where
  "use_entire_block s current prev_free =
     do {
       s1 \<leftarrow> set_is_free s current 0;
       nx \<leftarrow> get_next_free s1 current;
       s2 \<leftarrow> (if prev_free \<noteq> NULL then set_next_free s1 prev_free nx
              else Some (s1\<lparr>free_list_head := nx\<rparr>));
       s3 \<leftarrow> set_next_free s2 current NULL;
       Some (s3, current + sizeof_BlockHeader)
     }"

text \<open>
  The test of line 103, \<open>current->is_free && current->size >= total_needed_size\<close>:
  the size is read only when the flag is set.
\<close>

definition suitable :: "state \<Rightarrow> size_t \<Rightarrow> ptr \<Rightarrow> bool option" where
  "suitable s needed current =
     do {
       fr \<leftarrow> get_is_free s current;
       if fr \<noteq> 0 then do { sz \<leftarrow> get_size s current; Some (needed \<le> sz) } else Some False
     }"

definition take_block :: "state \<Rightarrow> size_t \<Rightarrow> ptr \<Rightarrow> ptr \<Rightarrow> (state \<times> ptr) option" where
  "take_block s needed current prev_free =
     do {
       sz \<leftarrow> get_size s current;
       if needed + sizeof_BlockHeader + ALIGNMENT \<le> sz
       then split_block s needed current prev_free
       else use_entire_block s current prev_free
     }"

text \<open>The first-fit loop of lines 102 to 145, from \<open>current\<close> and \<open>prev_free\<close>.\<close>

partial_function (option) first_fit :: "state \<Rightarrow> size_t \<Rightarrow> ptr \<Rightarrow> ptr \<Rightarrow> (state \<times> ptr) option" where
  "first_fit s needed current prev_free =
     (if current = NULL then Some (s, NULL)
      else do {
        ok \<leftarrow> suitable s needed current;
        if ok then take_block s needed current prev_free
        else do {
          nx \<leftarrow> get_next_free s current;
          first_fit s needed nx current
        }
      })"

definition my_malloc :: "state \<Rightarrow> size_t \<Rightarrow> (state \<times> ptr) option" where
  "my_malloc s sz =
     do {
       s1 \<leftarrow> (if \<not> allocator_initialized s then my_allocator_init s else Some s);
       if sz = 0 then Some (s1, NULL)
       else first_fit s1 (total_needed_size sz) (free_list_head s1) NULL
     }"

subsection \<open>my\_free\<close>

definition my_free :: "state \<Rightarrow> ptr \<Rightarrow> state option" where
  "my_free s p =
     (if p = NULL then Some s
      else if \<not> allocator_initialized s then Some s
      else if p - sizeof_BlockHeader < pool_base s
              \<or> pool_base s + POOL_SIZE \<le> p - sizeof_BlockHeader then Some s
      else do {
        fr \<leftarrow> get_is_free s (p - sizeof_BlockHeader);
        if fr \<noteq> 0 then Some s
        else do {
          s1 \<leftarrow> set_is_free s (p - sizeof_BlockHeader) 1;
          s2 \<leftarrow> set_next_free s1 (p - sizeof_BlockHeader) (free_list_head s1);
          Some (s2\<lparr>free_list_head := p - sizeof_BlockHeader\<rparr>)
        }
      })"

subsection \<open>What a caller can observe\<close>

text \<open>
  The walk of \<open>dump_memory_map\<close> over the pool: from the byte at offset \<open>off\<close>, advance
  by the \<open>size\<close> field of the header found there. The result is the list of the block
  addresses visited when the walk lands exactly on the end of the pool, and \<open>None\<close> when
  it meets a size of 0, steps over the end, or reaches an address that holds no cell.
\<close>

function pool_walk :: "state \<Rightarrow> nat \<Rightarrow> ptr list option" where
  "pool_walk s off =
     (if unat POOL_SIZE \<le> off then (if off = unat POOL_SIZE then Some [] else None)
      else case get_size s (pool_base s + of_nat off) of
             None \<Rightarrow> None
           | Some sz \<Rightarrow>
               if sz = 0 then None
               else map_option ((#) (pool_base s + of_nat off)) (pool_walk s (off + unat sz)))"
  by pat_completeness auto
termination
proof (relation "measure (\<lambda>(s, off). unat POOL_SIZE - off)")
  show "wf (measure (\<lambda>(s :: state, off). unat POOL_SIZE - off))"
    by simp
next
  fix s :: state and off :: nat and sz :: size_t
  assume "\<not> unat POOL_SIZE \<le> off" and "sz \<noteq> 0"
  moreover from \<open>sz \<noteq> 0\<close> have "0 < unat sz"
    by (simp add: unat_gt_0)
  ultimately show "((s, off + unat sz), (s, off)) \<in> measure (\<lambda>(s, off). unat POOL_SIZE - off)"
    by simp
qed

declare pool_walk.simps [simp del]

text \<open>
  The free list as the second loop of \<open>dump_memory_map\<close> reads it: \<open>chain s p bs\<close> holds
  when following \<open>next_free\<close> from \<open>p\<close> visits exactly the blocks \<open>bs\<close>, in this order,
  and then reaches \<open>NULL\<close>.
\<close>

fun chain :: "state \<Rightarrow> ptr \<Rightarrow> ptr list \<Rightarrow> bool" where
  "chain s p [] = (p = NULL)"
| "chain s p (b # bs) =
     (p = b \<and> b \<noteq> NULL \<and> (case get_next_free s b of None \<Rightarrow> False | Some q \<Rightarrow> chain s q bs))"

definition block_is_free :: "state \<Rightarrow> ptr \<Rightarrow> bool" where
  "block_is_free s b = (case get_is_free s b of None \<Rightarrow> False | Some v \<Rightarrow> v \<noteq> 0)"

text \<open>
  Sequences of calls. A configuration is the allocator state with the handles that
  \<open>my_malloc\<close> has returned so far.
\<close>

datatype call = Init | Allocate size_t | Deallocate ptr

fun exec :: "state \<times> ptr list \<Rightarrow> call \<Rightarrow> (state \<times> ptr list) option" where
  "exec (s, hs) Init = map_option (\<lambda>s'. (s', hs)) (my_allocator_init s)"
| "exec (s, hs) (Allocate n) = map_option (\<lambda>(s', p). (s', p # hs)) (my_malloc s n)"
| "exec (s, hs) (Deallocate p) = map_option (\<lambda>s'. (s', hs)) (my_free s p)"

fun run :: "state \<times> ptr list \<Rightarrow> call list \<Rightarrow> (state \<times> ptr list) option" where
  "run c [] = Some c"
| "run c (x # xs) = (case exec c x of None \<Rightarrow> None | Some c' \<Rightarrow> run c' xs)"

text \<open>
  The contract of \<open>my_free\<close> (its parameter "must be one returned by my\_malloc"):
  a pointer whose header address passes the bounds check of lines 170 and 171 is a
  handle that an earlier \<open>my_malloc\<close> returned, or at least the address that follows
  the header of a block of the pool, as every such handle is.
\<close>

definition rejected_by_bounds :: "state \<Rightarrow> ptr \<Rightarrow> bool" where
  "rejected_by_bounds s p \<longleftrightarrow>
     p - sizeof_BlockHeader < pool_base s \<or> pool_base s + POOL_SIZE \<le> p - sizeof_BlockHeader"

definition follows_header :: "state \<Rightarrow> ptr \<Rightarrow> bool" where
  "follows_header s p =
     (case pool_walk s 0 of None \<Rightarrow> False | Some bs \<Rightarrow> p - sizeof_BlockHeader \<in> set bs)"

fun call_ok :: "state \<times> ptr list \<Rightarrow> call \<Rightarrow> bool" where
  "call_ok (s, hs) (Deallocate p) =
     (p = NULL \<or> p \<in> set hs \<or> follows_header s p \<or> rejected_by_bounds s p)"
| "call_ok (s, hs) _ = True"

fun legal :: "state \<times> ptr list \<Rightarrow> call list \<Rightarrow> bool" where
  "legal c [] = True"
| "legal c (x # xs) =
     (call_ok c x \<and> (case exec c x of None \<Rightarrow> True | Some c' \<Rightarrow> legal c' xs))"

subsection \<open>The layout behind a well-formed state\<close>

text \<open>
  The array is placed so that no address of it wraps around and none is \<open>NULL\<close>.
\<close>

definition base_ok :: "state \<Rightarrow> bool" where
  "base_ok s \<longleftrightarrow> pool_base s \<noteq> 0 \<and> unat (pool_base s) + 1048576 < 2 ^ 64"

definition at :: "state \<Rightarrow> nat \<Rightarrow> ptr" where
  "at s k = pool_base s + 8 * of_nat k"

text \<open>
  A layout lists the blocks in address order, each as its first cell and its length in
  cells; \<open>tiles k bs e\<close> says that they lie end to end from cell \<open>k\<close> to cell \<open>e\<close>,
  each at least 4 cells (32 bytes) long. The pool has 131072 cells. \<open>links s p ks q\<close>
  says that the \<open>next_free\<close> fields lead from \<open>p\<close> through the blocks \<open>ks\<close> to \<open>q\<close>,
  and \<open>flag s k\<close> is the \<open>is_free\<close> field of the block at cell \<open>k\<close>.
\<close>

fun tiles :: "nat \<Rightarrow> (nat \<times> nat) list \<Rightarrow> nat \<Rightarrow> bool" where
  "tiles k [] e = (k = e)"
| "tiles k ((b, m) # bs) e = (b = k \<and> 4 \<le> m \<and> tiles (k + m) bs e)"

fun links :: "state \<Rightarrow> ptr \<Rightarrow> nat list \<Rightarrow> ptr \<Rightarrow> bool" where
  "links s p [] q = (p = q)"
| "links s p (k # ks) q = (p = at s k \<and> links s (memory_pool s (k + 2)) ks q)"

definition flag :: "state \<Rightarrow> nat \<Rightarrow> 32 word" where
  "flag s k = ucast (memory_pool s (k + 1))"

definition layout :: "state \<Rightarrow> (nat \<times> nat) list \<Rightarrow> nat list \<Rightarrow> bool" where
  "layout s bs fl \<longleftrightarrow>
     allocator_initialized s \<and> base_ok s \<and> tiles 0 bs 131072 \<and>
     (\<forall>(k, m) \<in> set bs. memory_pool s k = 8 * of_nat m) \<and>
     distinct fl \<and> set fl = {k \<in> fst ` set bs. flag s k \<noteq> 0} \<and>
     links s (free_list_head s) fl NULL"

text \<open>
  The states the allocator is meant to be in: some layout of blocks tiles the pool, each
  header records its block's size, and the free list links exactly the blocks whose
  \<open>is_free\<close> is set, each once.
\<close>

definition well_formed :: "state \<Rightarrow> bool" where
  "well_formed s \<longleftrightarrow> (\<exists>bs fl. layout s bs fl)"

text \<open>
  The states that \<open>my_malloc\<close>, \<open>my_free\<close> and \<open>my_allocator_init\<close> produce on a
  layout, written out cell by cell; \<open>pv\<close> is the block before the one found in the free
  list, if there is one.
\<close>

definition relink :: "state \<Rightarrow> nat option \<Rightarrow> ptr \<Rightarrow> state" where
  "relink s pv v =
     (case pv of None \<Rightarrow> s\<lparr>free_list_head := v\<rparr>
      | Some j \<Rightarrow> s\<lparr>memory_pool := (memory_pool s)(j + 2 := v)\<rparr>)"

definition split_cells :: "(nat \<Rightarrow> 64 word) \<Rightarrow> nat \<Rightarrow> nat \<Rightarrow> nat \<Rightarrow> 64 word" where
  "split_cells m k q =
     m(k + q := m k - 8 * of_nat q,
       k + q + 1 := (m (k + q + 1) AND NOT (mask 32)) OR 1,
       k + q + 2 := m (k + 2),
       k := 8 * of_nat q,
       k + 1 := m (k + 1) AND NOT (mask 32),
       k + 2 := NULL)"

definition after_split :: "state \<Rightarrow> nat \<Rightarrow> nat \<Rightarrow> nat option \<Rightarrow> state" where
  "after_split s k q pv =
     relink (s\<lparr>memory_pool := split_cells (memory_pool s) k q\<rparr>) pv (at s (k + q))"

definition after_consume :: "state \<Rightarrow> nat \<Rightarrow> nat option \<Rightarrow> state" where
  "after_consume s k pv =
     (let s1 = relink (s\<lparr>memory_pool := (memory_pool s)(k + 1 := memory_pool s (k + 1) AND NOT (mask 32))\<rparr>)
                 pv (memory_pool s (k + 2))
      in s1\<lparr>memory_pool := (memory_pool s1)(k + 2 := NULL)\<rparr>)"

definition link_ptr :: "state \<Rightarrow> nat option \<Rightarrow> ptr" where
  "link_ptr s pv = (case pv of None \<Rightarrow> NULL | Some j \<Rightarrow> at s j)"

definition after_init :: "state \<Rightarrow> state" where
  "after_init s =
     s\<lparr>free_list_head := pool_base s,
       memory_pool := (memory_pool s)
         (0 := POOL_SIZE, 1 := (memory_pool s 1 AND NOT (mask 32)) OR 1, 2 := NULL),
       allocator_initialized := True\<rparr>"

definition after_free :: "state \<Rightarrow> nat \<Rightarrow> state" where
  "after_free s k =
     s\<lparr>memory_pool := (memory_pool s)
         (k + 1 := (memory_pool s (k + 1) AND NOT (mask 32)) OR 1, k + 2 := free_list_head s),
       free_list_head := at s k\<rparr>"

text \<open>
  Every handle that \<open>my_malloc\<close> has returned is \<open>NULL\<close> or the address after the header
  of a block of the layout.
\<close>

definition issued :: "state \<Rightarrow> (nat \<times> nat) list \<Rightarrow> ptr list \<Rightarrow> bool" where
  "issued s bs hs \<longleftrightarrow> (\<forall>p \<in> set hs. p = NULL \<or> (\<exists>k \<in> fst ` set bs. p = at s (k + 3)))"

definition config_ok :: "state \<times> ptr list \<Rightarrow> bool" where
  "config_ok c \<longleftrightarrow> (\<exists>bs fl. layout (fst c) bs fl \<and> issued (fst c) bs (snd c))"

section \<open>Properties\<close>

subsection \<open>Addresses and cells\<close>

lemma base_ok_update [simp]:
  "base_ok (s\<lparr>memory_pool := m\<rparr>) = base_ok s"
  "base_ok (s\<lparr>free_list_head := h\<rparr>) = base_ok s"
  "base_ok (s\<lparr>allocator_initialized := i\<rparr>) = base_ok s"
  by (simp_all add: base_ok_def)

lemma at_update [simp]:
  "at (s\<lparr>memory_pool := m\<rparr>) k = at s k"
  "at (s\<lparr>free_list_head := h\<rparr>) k = at s k"
  "at (s\<lparr>allocator_initialized := i\<rparr>) k = at s k"
  by (simp_all add: at_def)

lemma flag_update [simp]:
  "flag (s\<lparr>free_list_head := h\<rparr>) k = flag s k"
  "flag (s\<lparr>allocator_initialized := i\<rparr>) k = flag s k"
  "flag (s\<lparr>memory_pool := m\<rparr>) k = ucast (m (k + 1))"
  by (simp_all add: flag_def)

lemma at_0 [simp]: "at s 0 = pool_base s"
  by (simp add: at_def)

lemma at_add: "at s k + 8 * of_nat q = at s (k + q)"
  by (simp add: at_def algebra_simps)

lemma at_add_fields [simp]:
  "at s k + 8 = at s (k + 1)"
  "at s k + 16 = at s (k + 2)"
  "at s k + 24 = at s (k + 3)"
  by (simp_all add: at_def algebra_simps)

lemma unat_at:
  assumes "base_ok s" and "k \<le> 131072"
  shows "unat (at s k) = unat (pool_base s) + 8 * k"
  using assms unfolding at_def base_ok_def
  by (simp add: unat_word_ariths unat_of_nat)

lemma at_not_NULL:
  assumes "base_ok s" and "k \<le> 131072"
  shows "at s k \<noteq> NULL"
proof
  assume "at s k = NULL"
  then have "unat (at s k) = 0" by (simp add: NULL_def)
  moreover have "unat (pool_base s) \<noteq> 0"
    using assms(1) by (simp add: base_ok_def unat_eq_0)
  ultimately show False using unat_at [OF assms] by simp
qed

lemma at_inject:
  assumes "base_ok s" and "j \<le> 131072" and "k \<le> 131072"
  shows "at s j = at s k \<longleftrightarrow> j = k"
proof
  assume "at s j = at s k"
  then have "unat (at s j) = unat (at s k)" by simp
  then show "j = k" using assms by (simp add: unat_at)
qed simp

lemma at_same_base: "pool_base t = pool_base s \<Longrightarrow> at t k = at s k"
  by (simp add: at_def)

lemma handle_block:
  "at s (k + 3) - sizeof_BlockHeader = at s k"
  by (simp add: at_def sizeof_BlockHeader_def algebra_simps)

lemma cell_of_at:
  assumes "base_ok s" and "k < 131072"
  shows "cell_of s (at s k) = Some k"
proof -
  have "at s k - pool_base s = 8 * of_nat k"
    by (simp add: at_def)
  moreover have "unat (8 * of_nat k :: 64 word) = 8 * k"
    using assms(2) by (simp add: unat_word_ariths unat_of_nat)
  moreover have "pool_base s \<le> at s k"
    using assms by (simp add: word_le_nat_alt unat_at)
  ultimately show ?thesis
    using assms(2) by (simp add: cell_of_def word_less_nat_alt POOL_SIZE_def)
qed

lemma flag_written: "(ucast ((w AND NOT (mask 32)) OR ucast (v :: 32 word) :: 64 word) :: 32 word) = v"
  by (rule bit_word_eqI) (auto simp: bit_simps)

lemma flag_cleared: "(ucast (w AND NOT (mask 32) :: 64 word) :: 32 word) = 0"
  using flag_written [of w 0] by simp

lemma flag_set: "(ucast (w AND NOT (mask 32) OR 1 :: 64 word) :: 32 word) = 1"
  using flag_written [of w 1] by simp

lemma cell_of_at':
  "base_ok s \<Longrightarrow> pool_base t = pool_base s \<Longrightarrow> k < 131072 \<Longrightarrow> cell_of t (at s k) = Some k"
  using cell_of_at [of t k] by (simp add: base_ok_def at_def)

lemma get_size_at:
  "base_ok s \<Longrightarrow> pool_base t = pool_base s \<Longrightarrow> k < 131072 \<Longrightarrow>
   get_size t (at s k) = Some (memory_pool t k)"
  by (simp add: get_size_def load64_def cell_of_at')

lemma get_is_free_at:
  "base_ok s \<Longrightarrow> pool_base t = pool_base s \<Longrightarrow> k + 1 < 131072 \<Longrightarrow>
   get_is_free t (at s k) = Some (flag t k)"
  by (simp add: get_is_free_def load64_def cell_of_at' flag_def)

lemma get_next_free_at:
  "base_ok s \<Longrightarrow> pool_base t = pool_base s \<Longrightarrow> k + 2 < 131072 \<Longrightarrow>
   get_next_free t (at s k) = Some (memory_pool t (k + 2))"
  by (simp add: get_next_free_def load64_def cell_of_at')

lemma set_size_at:
  "base_ok s \<Longrightarrow> pool_base t = pool_base s \<Longrightarrow> k < 131072 \<Longrightarrow>
   set_size t (at s k) v = Some (t\<lparr>memory_pool := (memory_pool t)(k := v)\<rparr>)"
  by (simp add: set_size_def store64_def cell_of_at')

lemma set_is_free_at:
  "base_ok s \<Longrightarrow> pool_base t = pool_base s \<Longrightarrow> k + 1 < 131072 \<Longrightarrow>
   set_is_free t (at s k) v =
     Some (t\<lparr>memory_pool := (memory_pool t)
       (k + 1 := (memory_pool t (k + 1) AND NOT (mask 32)) OR ucast v)\<rparr>)"
  by (simp add: set_is_free_def load64_def store64_def cell_of_at')

lemma set_next_free_at:
  "base_ok s \<Longrightarrow> pool_base t = pool_base s \<Longrightarrow> k + 2 < 131072 \<Longrightarrow>
   set_next_free t (at s k) v = Some (t\<lparr>memory_pool := (memory_pool t)(k + 2 := v)\<rparr>)"
  by (simp add: set_next_free_def store64_def cell_of_at')

lemmas field_at = get_size_at get_is_free_at get_next_free_at set_size_at set_is_free_at
  set_next_free_at

subsection \<open>Blocks lying end to end\<close>

lemma tiles_append:
  "tiles k (xs @ ys) e \<longleftrightarrow> (\<exists>j. tiles k xs j \<and> tiles j ys e)"
  by (induction xs arbitrary: k) auto

lemma tiles_le: "tiles k bs e \<Longrightarrow> k \<le> e"
proof (induction bs arbitrary: k)
  case Nil
  then show ?case by simp
next
  case (Cons x bs)
  obtain b m where "x = (b, m)" by (cases x)
  with Cons.prems have "tiles (k + m) bs e" by simp
  from Cons.IH [OF this] show ?case by simp
qed

lemma tiles_member:
  "tiles k bs e \<Longrightarrow> (b, m) \<in> set bs \<Longrightarrow> k \<le> b \<and> 4 \<le> m \<and> b + m \<le> e"
proof (induction bs arbitrary: k)
  case Nil
  then show ?case by simp
next
  case (Cons x bs)
  obtain b' m' where x: "x = (b', m')" by (cases x)
  show ?case
  proof (cases "(b, m) = x")
    case True
    with Cons.prems x show ?thesis using tiles_le [of "k + m'" bs e] by auto
  next
    case False
    with Cons.prems x have "tiles (k + m') bs e" and "(b, m) \<in> set bs" by auto
    from Cons.IH [OF this] show ?thesis by simp
  qed
qed

lemma tiles_apart:
  "tiles k bs e \<Longrightarrow> (b, m) \<in> set bs \<Longrightarrow> (b', m') \<in> set bs \<Longrightarrow>
   (b, m) = (b', m') \<or> b + m \<le> b' \<or> b' + m' \<le> b"
proof (induction bs arbitrary: k)
  case Nil
  then show ?case by simp
next
  case (Cons x bs)
  obtain c n where x: "x = (c, n)" by (cases x)
  from Cons.prems x have t: "tiles (k + n) bs e" and c: "c = k" by auto
  consider "(b, m) = x" "(b', m') = x" | "(b, m) = x" "(b', m') \<in> set bs"
    | "(b, m) \<in> set bs" "(b', m') = x" | "(b, m) \<in> set bs" "(b', m') \<in> set bs"
    using Cons.prems by auto
  then show ?case
  proof cases
    case 1
    then show ?thesis by simp
  next
    case 2
    with tiles_member [OF t 2(2)] x c show ?thesis by auto
  next
    case 3
    with tiles_member [OF t 3(1)] x c show ?thesis by auto
  next
    case 4
    with Cons.IH [OF t] show ?thesis by blast
  qed
qed

lemma tiles_distinct: "tiles k bs e \<Longrightarrow> distinct (map fst bs)"
proof (induction bs arbitrary: k)
  case Nil
  then show ?case by simp
next
  case (Cons x bs)
  obtain c n where x: "x = (c, n)" by (cases x)
  from Cons.prems x have t: "tiles (k + n) bs e" and c: "c = k" and n: "4 \<le> n" by auto
  have "c \<notin> fst ` set bs"
  proof
    assume "c \<in> fst ` set bs"
    then obtain m where "(c, m) \<in> set bs" by auto
    from tiles_member [OF t this] c n show False by simp
  qed
  with Cons.IH [OF t] x show ?case by simp
qed

subsection \<open>The first-fit loop\<close>

lemma suitable_at:
  "base_ok s \<Longrightarrow> k + 1 < 131072 \<Longrightarrow>
   suitable s needed (at s k) = Some (flag s k \<noteq> 0 \<and> needed \<le> memory_pool s k)"
  by (simp add: suitable_def field_at)

lemma first_fit_NULL: "first_fit s needed NULL prev = Some (s, NULL)"
  by (subst first_fit.simps) simp

lemma first_fit_skip:
  assumes "base_ok s" and "k + 2 < 131072"
    and "\<not> (flag s k \<noteq> 0 \<and> needed \<le> memory_pool s k)"
  shows "first_fit s needed (at s k) prev = first_fit s needed (memory_pool s (k + 2)) (at s k)"
  using assms
  by (subst first_fit.simps) (auto simp: at_not_NULL suitable_at field_at)

lemma first_fit_found:
  assumes "base_ok s" and "k + 2 < 131072"
    and "flag s k \<noteq> 0" and "needed \<le> memory_pool s k"
  shows "first_fit s needed (at s k) prev = take_block s needed (at s k) prev"
  using assms
  by (subst first_fit.simps) (simp add: at_not_NULL suitable_at field_at)

lemma first_fit_scan:
  assumes "base_ok s" and "links s p ks q"
    and "\<forall>k \<in> set ks. k + 2 < 131072 \<and> \<not> (flag s k \<noteq> 0 \<and> needed \<le> memory_pool s k)"
  shows "first_fit s needed p prev =
         first_fit s needed q (if ks = [] then prev else at s (last ks))"
  using assms(2,3)
proof (induction ks arbitrary: p prev)
  case Nil
  then show ?case by simp
next
  case (Cons k ks)
  from Cons.prems have p: "p = at s k" and l: "links s (memory_pool s (k + 2)) ks q"
    and k: "k + 2 < 131072" "\<not> (flag s k \<noteq> 0 \<and> needed \<le> memory_pool s k)"
    and r: "\<forall>k \<in> set ks. k + 2 < 131072 \<and> \<not> (flag s k \<noteq> 0 \<and> needed \<le> memory_pool s k)"
    by auto
  have "first_fit s needed p prev = first_fit s needed (memory_pool s (k + 2)) (at s k)"
    unfolding p by (rule first_fit_skip [OF assms(1) k])
  also have "\<dots> = first_fit s needed q (if ks = [] then at s k else at s (last ks))"
    by (rule Cons.IH [OF l r])
  finally show ?case by simp
qed

subsection \<open>The size needed\<close>

lemma and_not7: "(w :: 64 word) AND NOT 7 = push_bit 3 (drop_bit 3 w)"
proof -
  have "(7 :: 64 word) = mask 3" by (simp add: mask_eq_exp_minus_1)
  then show ?thesis
    by (simp add: bit_eq_iff bit_simps) (auto simp: bit_simps)
qed

lemma unat_and_not7: "unat ((w :: 64 word) AND NOT 7) = unat w div 8 * 8"
proof -
  have b: "unat w div 8 * 8 < 2 ^ 64"
  proof -
    have "unat w < 2 ^ 64" using unsigned_less [of w, where 'a = nat] by simp
    then show ?thesis by arith
  qed
  have "unat (push_bit 3 (drop_bit 3 w)) = take_bit 64 (push_bit 3 (unat w div 8))"
    by (simp add: unsigned_push_bit_eq unsigned_drop_bit_eq drop_bit_eq_div unat_div)
  also have "\<dots> = unat w div 8 * 8"
    using b by (simp add: push_bit_eq_mult take_bit_nat_eq_self)
  finally show ?thesis unfolding and_not7 .
qed

lemma unat_ALIGN: "unat (ALIGN x) = unat (x + 7) div 8 * 8"
  using unat_and_not7 [of "x + 7"] by (simp add: ALIGN_def ALIGNMENT_def)

lemma aligned_cells:
  assumes "8 dvd unat (w :: 64 word)"
  shows "w = 8 * of_nat (unat w div 8)"
proof -
  have "unat w = 8 * (unat w div 8)" using assms by simp
  then have "of_nat (unat w) = (of_nat (8 * (unat w div 8)) :: 64 word)" by simp
  then show ?thesis by simp
qed

lemma total_needed_size_cells:
  "\<exists>q. total_needed_size n = 8 * of_nat q \<and> 4 \<le> q \<and> q < 2 ^ 61"
proof -
  let ?t = "total_needed_size n"
  have a: "8 dvd unat (ALIGN x)" for x
    by (simp add: unat_ALIGN)
  have d: "8 dvd unat ?t"
    using a by (simp add: total_needed_size_def sizeof_BlockHeader_def ALIGNMENT_def)
  have "32 \<le> ?t"
    by (simp add: total_needed_size_def sizeof_BlockHeader_def ALIGNMENT_def not_less)
  then have l: "32 \<le> unat ?t" by (simp add: word_le_nat_alt)
  have u: "unat ?t < 2 ^ 64" using unsigned_less [of ?t, where 'a = nat] by simp
  show ?thesis
  proof (intro exI conjI)
    show "?t = 8 * of_nat (unat ?t div 8)" by (rule aligned_cells [OF d])
    show "4 \<le> unat ?t div 8" using l by arith
    show "unat ?t div 8 < 2 ^ 61" using u by simp
  qed
qed

text \<open>
  \<open>total_needed_size\<close> computes in \<open>size_t\<close>. It is the size of the spec as long as
  \<open>size + sizeof(BlockHeader) + 7\<close> does not wrap around; for the last 31 values of
  \<open>size_t\<close> the sum wraps and the size needed comes out small.
\<close>

lemma total_needed_size_spec:
  assumes "unat n + 31 < 2 ^ 64"
  shows "unat (total_needed_size n) = needed_spec (unat n)"
proof -
  have a: "unat (n + 24 + 7) = unat n + 31"
    using assms by (simp add: unat_word_ariths)
  have b: "unat (ALIGN (n + 24)) = (unat n + 31) div 8 * 8"
    by (simp only: unat_ALIGN a)
  have c: "ALIGN (n + 24) < 32 \<longleftrightarrow> (unat n + 31) div 8 * 8 < 32"
    by (simp add: word_less_nat_alt b)
  have t: "total_needed_size n = (if ALIGN (n + 24) < 32 then 32 else ALIGN (n + 24))"
    by (simp add: total_needed_size_def sizeof_BlockHeader_def ALIGNMENT_def)
  show ?thesis
  proof (cases "ALIGN (n + 24) < 32")
    case True
    with t have "unat (total_needed_size n) = 32" by simp
    moreover from True c have "(unat n + 24 + 7) div 8 * 8 < 32" by simp
    ultimately show ?thesis by (simp add: needed_spec_def max_def)
  next
    case False
    with t b have "unat (total_needed_size n) = (unat n + 31) div 8 * 8" by simp
    moreover from False c have "32 \<le> (unat n + 24 + 7) div 8 * 8" by simp
    ultimately show ?thesis by (simp add: needed_spec_def max_def)
  qed
qed

lemma total_needed_size_wraps:
  "total_needed_size (- 1) = 32" and "needed_spec (unat (- 1 :: size_t)) = 2 ^ 64 + 24"
  by (simp_all add: total_needed_size_def ALIGN_def ALIGNMENT_def sizeof_BlockHeader_def
      needed_spec_def unsigned_minus_1_eq_mask mask_eq_exp_minus_1)

subsection \<open>The two ways of taking a block\<close>

lemma link_ptr_NULL:
  assumes "base_ok s" and "case pv of None \<Rightarrow> True | Some j \<Rightarrow> j + 2 < 131072"
  shows "link_ptr s pv = NULL \<longleftrightarrow> pv = None"
  using assms by (auto simp: link_ptr_def at_not_NULL split: option.splits)

lemma take_block_split:
  assumes "base_ok s" and "k + m \<le> 131072" and "memory_pool s k = 8 * of_nat m"
    and "4 \<le> q" and "q + 4 \<le> m"
    and "case pv of None \<Rightarrow> True | Some j \<Rightarrow> j + 2 < 131072"
  shows "take_block s (8 * of_nat q) (at s k) (link_ptr s pv) =
         Some (after_split s k q pv, at s (k + 3))"
proof -
  have c: "8 * of_nat q + sizeof_BlockHeader + ALIGNMENT \<le> (8 * of_nat m :: 64 word)"
    using assms(2,5)
    by (simp add: sizeof_BlockHeader_def ALIGNMENT_def word_le_nat_alt unat_word_ariths unat_of_nat)
  show ?thesis
    using assms c
    apply (simp add: take_block_def field_at)
    apply (simp add: split_block_def field_at at_add link_ptr_NULL sizeof_BlockHeader_def)
    apply (simp add: after_split_def split_cells_def relink_def link_ptr_def NULL_def field_at split: option.splits)
    done
qed

lemma take_block_consume:
  assumes "base_ok s" and "k + m \<le> 131072" and "memory_pool s k = 8 * of_nat m"
    and "4 \<le> m" and "\<not> q + 4 \<le> m" and "q \<le> m"
    and "case pv of None \<Rightarrow> True | Some j \<Rightarrow> j + 2 < 131072"
  shows "take_block s (8 * of_nat q) (at s k) (link_ptr s pv) =
         Some (after_consume s k pv, at s (k + 3))"
proof -
  have c: "\<not> 8 * of_nat q + sizeof_BlockHeader + ALIGNMENT \<le> (8 * of_nat m :: 64 word)"
    using assms(2,5,6)
    by (simp add: sizeof_BlockHeader_def ALIGNMENT_def word_le_nat_alt unat_word_ariths unat_of_nat)
  show ?thesis
    using assms c
    apply (simp add: take_block_def field_at)
    apply (simp add: use_entire_block_def field_at link_ptr_NULL sizeof_BlockHeader_def)
    apply (simp add: after_consume_def relink_def link_ptr_def NULL_def field_at split: option.splits)
    done
qed

lemma links_append:
  "links s p (xs @ ys) q \<longleftrightarrow> (\<exists>r. links s p xs r \<and> links s r ys q)"
  by (induction xs arbitrary: p) auto

lemma links_frame:
  assumes "pool_base t = pool_base s"
    and "\<forall>k \<in> set ks. memory_pool t (k + 2) = memory_pool s (k + 2)"
  shows "links t p ks q = links s p ks q"
  using assms(2)
proof (induction ks arbitrary: p)
  case Nil
  then show ?case by simp
next
  case (Cons k ks)
  have "at t k = at s k" using assms(1) by (simp add: at_def)
  with Cons show ?case by simp
qed

lemma tiles_far:
  assumes "tiles k bs e" and "a \<in> fst ` set bs" and "b \<in> fst ` set bs"
  shows "a = b \<or> a + 4 \<le> b \<or> b + 4 \<le> a"
proof -
  from assms obtain m n where m: "(a, m) \<in> set bs" and n: "(b, n) \<in> set bs" by auto
  from tiles_apart [OF assms(1) m n] tiles_member [OF assms(1) m] tiles_member [OF assms(1) n]
  show ?thesis by auto
qed

lemma after_split_fields [simp]:
  "pool_base (after_split s k q pv) = pool_base s"
  "allocator_initialized (after_split s k q pv) = allocator_initialized s"
  "free_list_head (after_split s k q pv) =
     (case pv of None \<Rightarrow> at s (k + q) | Some j \<Rightarrow> free_list_head s)"
  "memory_pool (after_split s k q pv) =
     (case pv of None \<Rightarrow> split_cells (memory_pool s) k q
      | Some j \<Rightarrow> (split_cells (memory_pool s) k q)(j + 2 := at s (k + q)))"
  by (simp_all add: after_split_def relink_def split: option.splits)

lemma at_after_split [simp]: "at (after_split s k q pv) x = at s x"
  by (simp add: at_def)

lemma base_ok_after_split [simp]: "base_ok (after_split s k q pv) = base_ok s"
  by (simp add: base_ok_def)

lemma split_cells_other:
  assumes "c < k \<or> k + q + 3 \<le> c \<or> (k + 3 \<le> c \<and> c < k + q)"
  shows "split_cells m k q c = m c"
  using assms by (auto simp: split_cells_def)

lemma split_cells_block:
  assumes "4 \<le> q"
  shows "split_cells m k q k = 8 * of_nat q"
    and "split_cells m k q (k + 1) = m (k + 1) AND NOT (mask 32)"
    and "split_cells m k q (k + 2) = NULL"
    and "split_cells m k q (k + q) = m k - 8 * of_nat q"
    and "split_cells m k q (k + q + 1) = (m (k + q + 1) AND NOT (mask 32)) OR 1"
    and "split_cells m k q (k + q + 2) = m (k + 2)"
  using assms by (simp_all add: split_cells_def)

lemma layout_split:
  assumes lay: "layout s (xs @ (k, m) # ys) (pre @ k # post)"
    and q: "4 \<le> q" "q + 4 \<le> m"
    and pv: "pv = (if pre = [] then None else Some (last pre))"
  shows "layout (after_split s k q pv) (xs @ (k, q) # (k + q, m - q) # ys) (pre @ (k + q) # post)"
proof -
  let ?bs = "xs @ (k, m) # ys" and ?fl = "pre @ k # post"
  let ?bs' = "xs @ (k, q) # (k + q, m - q) # ys" and ?fl' = "pre @ (k + q) # post"
  let ?t = "after_split s k q pv"
  define S where "S = fst ` set ?bs'"
  from lay have ok: "base_ok s" and ini: "allocator_initialized s"
    and til: "tiles 0 ?bs 131072"
    and siz: "\<forall>(b, n) \<in> set ?bs. memory_pool s b = 8 * of_nat n"
    and dis: "distinct ?fl"
    and fre: "set ?fl = {b \<in> fst ` set ?bs. flag s b \<noteq> 0}"
    and lnk: "links s (free_list_head s) ?fl NULL"
    by (simp_all add: layout_def)
  from til obtain j where xs: "tiles 0 xs j" and rest: "tiles j ((k, m) # ys) 131072"
    by (auto simp: tiles_append)
  then have jk: "j = k" and ys: "tiles (k + m) ys 131072" by auto
  have til': "tiles 0 ?bs' 131072"
    using xs ys q jk by (auto simp: tiles_append)
  have S_eq: "S = insert (k + q) (fst ` set ?bs)"
    by (auto simp: S_def)
  have km: "k + m \<le> 131072" using tiles_member [OF til, of k m] by simp
  have far: "a = b \<or> a + 4 \<le> b \<or> b + 4 \<le> a" if "a \<in> S" "b \<in> S" for a b
    using tiles_far [OF til'] that by (simp add: S_def)
  have kS: "k \<in> S" and kqS: "k + q \<in> S" by (auto simp: S_def)
  have kq_new: "k + q \<notin> fst ` set ?bs"
  proof
    assume "k + q \<in> fst ` set ?bs"
    then obtain n where n: "(k + q, n) \<in> set ?bs" by force
    have "(k, m) \<in> set ?bs" by simp
    from tiles_apart [OF til this n] tiles_member [OF til n] q show False by auto
  qed
  have fl_sub: "set ?fl \<subseteq> fst ` set ?bs" using fre by auto
  have pvS: "j \<in> S \<and> j \<noteq> k \<and> j \<noteq> k + q \<and> j \<in> set pre" if "pv = Some j" for j
  proof -
    from that pv have j: "pre \<noteq> []" "j = last pre" by (auto split: if_splits)
    then have "j \<in> set pre" by simp
    with dis fl_sub kq_new show ?thesis by (auto simp: S_eq)
  qed
  have pvfar: "a = j \<or> a + 4 \<le> j \<or> j + 4 \<le> a" if "pv = Some j" "a \<in> S" for a j
    using pvS [OF that(1)] far [OF that(2), of j] by simp
  have cases_S: "a = k \<or> a = k + q \<or> a + 4 \<le> k \<or> k + q + 4 \<le> a \<or> (k + 4 \<le> a \<and> a + 4 \<le> k + q)"
    if "a \<in> S" for a
    using far [OF that kS] far [OF that kqS] by arith
  have link_cell: "memory_pool ?t c = split_cells (memory_pool s) k q c"
    if "\<And>j. pv = Some j \<Longrightarrow> c \<noteq> j + 2" for c
    using that by (cases pv) simp_all
  have R0: "memory_pool ?t a =
      (if a = k then 8 * of_nat q else if a = k + q then memory_pool s k - 8 * of_nat q
       else memory_pool s a)" if "a \<in> S" for a
  proof -
    have "memory_pool ?t a = split_cells (memory_pool s) k q a"
      using pvfar [OF _ that] by (intro link_cell) fastforce
    then show ?thesis
      using cases_S [OF that] q split_cells_block [OF q(1), of "memory_pool s" k]
      by (auto simp: split_cells_other)
  qed
  have R1: "flag ?t a = (if a = k then 0 else if a = k + q then 1 else flag s a)"
    if "a \<in> S" for a
  proof -
    have "memory_pool ?t (a + 1) = split_cells (memory_pool s) k q (a + 1)"
      using pvfar [OF _ that] by (intro link_cell) fastforce
    then show ?thesis
      unfolding flag_def
      using cases_S [OF that] q split_cells_block [OF q(1), of "memory_pool s" k]
      by (auto simp: split_cells_other flag_cleared flag_set)
  qed
  have R2: "memory_pool ?t (a + 2) =
      (if pv = Some a then at s (k + q) else if a = k then NULL
       else if a = k + q then memory_pool s (k + 2) else memory_pool s (a + 2))"
    if "a \<in> S" for a
  proof (cases "pv = Some a")
    case True
    then show ?thesis by simp
  next
    case False
    have "memory_pool ?t (a + 2) = split_cells (memory_pool s) k q (a + 2)"
      using pvfar [OF _ that] False by (intro link_cell) fastforce
    then show ?thesis
      using False cases_S [OF that] q split_cells_block [OF q(1), of "memory_pool s" k]
      by (auto simp: split_cells_other)
  qed
  have k_once: "k \<notin> fst ` set xs \<union> fst ` set ys"
    using tiles_distinct [OF til] by auto
  have sizes': "\<forall>(b, n) \<in> set ?bs'. memory_pool ?t b = 8 * of_nat n"
  proof (clarify)
    fix b n assume bn: "(b, n) \<in> set ?bs'"
    then have bS: "b \<in> S" by (force simp: S_def)
    from bn consider "b = k" "n = q" | "b = k + q" "n = m - q" | "(b, n) \<in> set xs \<union> set ys"
      by auto
    then show "memory_pool ?t b = 8 * of_nat n"
    proof cases
      case 1
      with R0 [OF bS] show ?thesis by simp
    next
      case 2
      have "memory_pool s k = 8 * of_nat m" using siz by simp
      with 2 R0 [OF bS] q show ?thesis by (simp add: of_nat_diff algebra_simps)
    next
      case 3
      then have "b \<in> fst ` set xs \<union> fst ` set ys" by force
      with k_once kq_new have "b \<noteq> k" "b \<noteq> k + q" by auto
      moreover from 3 siz have "memory_pool s b = 8 * of_nat n" by auto
      ultimately show ?thesis using R0 [OF bS] by simp
    qed
  qed
  have kq_fl: "k + q \<notin> set ?fl" using fl_sub kq_new by blast
  have dis': "distinct ?fl'" using dis kq_fl by auto
  have fre': "set ?fl' = {b \<in> S. flag ?t b \<noteq> 0}"
  proof (intro set_eqI iffI)
    fix x assume x: "x \<in> set ?fl'"
    show "x \<in> {b \<in> S. flag ?t b \<noteq> 0}"
    proof (cases "x = k + q")
      case True
      with R1 [OF kqS] q kqS show ?thesis by simp
    next
      case False
      with x have xf: "x \<in> set ?fl" and xk: "x \<noteq> k" using dis by auto
      with fre have "x \<in> fst ` set ?bs" "flag s x \<noteq> 0" by auto
      then have "x \<in> S" by (simp add: S_eq)
      with R1 [OF this] False xk \<open>flag s x \<noteq> 0\<close> show ?thesis by simp
    qed
  next
    fix x assume "x \<in> {b \<in> S. flag ?t b \<noteq> 0}"
    then have xS: "x \<in> S" and fx: "flag ?t x \<noteq> 0" by auto
    show "x \<in> set ?fl'"
    proof (cases "x = k + q")
      case True
      then show ?thesis by simp
    next
      case False
      with fx R1 [OF xS] have xk: "x \<noteq> k" and "flag s x \<noteq> 0" by (auto split: if_splits)
      moreover from xS False have "x \<in> fst ` set ?bs" by (simp add: S_eq)
      ultimately have "x \<in> set ?fl" using fre by simp
      with xk show ?thesis by auto
    qed
  qed
  have keep: "memory_pool ?t (a + 2) = memory_pool s (a + 2)"
    if "a \<in> set ?fl" "a \<noteq> k" "pv \<noteq> Some a" for a
  proof -
    from that(1) fl_sub have "a \<in> S" by (auto simp: S_eq)
    from R2 [OF this] that kq_fl show ?thesis by auto
  qed
  from lnk obtain r where pre: "links s (free_list_head s) pre r" and r: "r = at s k"
    and post: "links s (memory_pool s (k + 2)) post NULL"
    by (auto simp: links_append)
  have post': "links ?t (memory_pool s (k + 2)) post NULL"
  proof -
    have "\<forall>a \<in> set post. memory_pool ?t (a + 2) = memory_pool s (a + 2)"
    proof
      fix a assume a: "a \<in> set post"
      with dis have "a \<noteq> k" by auto
      moreover have "pv \<noteq> Some a" using pvS [of a] a dis by auto
      ultimately show "memory_pool ?t (a + 2) = memory_pool s (a + 2)"
        using keep [of a] a by simp
    qed
    with post show ?thesis by (simp add: links_frame [of ?t s])
  qed
  have new_next: "memory_pool ?t (k + q + 2) = memory_pool s (k + 2)"
    using R2 [OF kqS] pvS [of "k + q"] q by auto
  have lnk': "links ?t (free_list_head ?t) ?fl' NULL"
  proof (cases "pre = []")
    case True
    with pv have "pv = None" by simp
    with True new_next post' show ?thesis by simp
  next
    case False
    then obtain pre0 j where pre_eq: "pre = pre0 @ [j]" by (metis rev_exhaust)
    with pv have pvj: "pv = Some j" by simp
    from pre pre_eq r obtain r0 where p0: "links s (free_list_head s) pre0 r0" and r0: "r0 = at s j"
      by (auto simp: links_append)
    have "\<forall>a \<in> set pre0. memory_pool ?t (a + 2) = memory_pool s (a + 2)"
    proof
      fix a assume a: "a \<in> set pre0"
      with dis pre_eq have "a \<noteq> k" "a \<noteq> j" by auto
      with keep [of a] a pre_eq pvj show "memory_pool ?t (a + 2) = memory_pool s (a + 2)"
        by simp
    qed
    with p0 have p0': "links ?t (free_list_head s) pre0 r0" by (simp add: links_frame [of ?t s])
    have "j \<in> S" using pvS [OF pvj] by simp
    from R2 [OF this] pvj have "memory_pool ?t (j + 2) = at s (k + q)" by simp
    with p0' r0 new_next post' pvj pre_eq show ?thesis
      by (auto simp: links_append)
  qed
  show ?thesis
    unfolding layout_def
    using ok ini til' sizes' dis' fre' lnk' by (simp add: S_def)
qed

lemma after_consume_fields [simp]:
  "pool_base (after_consume s k pv) = pool_base s"
  "allocator_initialized (after_consume s k pv) = allocator_initialized s"
  "free_list_head (after_consume s k pv) =
     (case pv of None \<Rightarrow> memory_pool s (k + 2) | Some j \<Rightarrow> free_list_head s)"
  "memory_pool (after_consume s k pv) =
     (case pv of
        None \<Rightarrow> (memory_pool s)(k + 1 := memory_pool s (k + 1) AND NOT (mask 32), k + 2 := NULL)
      | Some j \<Rightarrow> (memory_pool s)(k + 1 := memory_pool s (k + 1) AND NOT (mask 32),
          j + 2 := memory_pool s (k + 2), k + 2 := NULL))"
  by (simp_all add: after_consume_def relink_def Let_def split: option.splits)

lemma at_after_consume [simp]: "at (after_consume s k pv) x = at s x"
  by (simp add: at_def)

lemma base_ok_after_consume [simp]: "base_ok (after_consume s k pv) = base_ok s"
  by (simp add: base_ok_def)

lemma layout_consume:
  assumes lay: "layout s bs (pre @ k # post)"
    and pv: "pv = (if pre = [] then None else Some (last pre))"
  shows "layout (after_consume s k pv) bs (pre @ post)"
proof -
  let ?fl = "pre @ k # post" and ?fl' = "pre @ post"
  let ?t = "after_consume s k pv"
  define S where "S = fst ` set bs"
  from lay have ok: "base_ok s" and ini: "allocator_initialized s"
    and til: "tiles 0 bs 131072"
    and siz: "\<forall>(b, n) \<in> set bs. memory_pool s b = 8 * of_nat n"
    and dis: "distinct ?fl"
    and fre: "set ?fl = {b \<in> S. flag s b \<noteq> 0}"
    and lnk: "links s (free_list_head s) ?fl NULL"
    by (simp_all add: layout_def S_def)
  have far: "a = b \<or> a + 4 \<le> b \<or> b + 4 \<le> a" if "a \<in> S" "b \<in> S" for a b
    using tiles_far [OF til] that by (simp add: S_def)
  have fl_sub: "set ?fl \<subseteq> S" using fre by auto
  then have kS: "k \<in> S" by simp
  have pvS: "j \<in> S \<and> j \<noteq> k \<and> j \<in> set pre" if "pv = Some j" for j
  proof -
    from that pv have j: "pre \<noteq> []" "j = last pre" by (auto split: if_splits)
    then have "j \<in> set pre" by simp
    with dis fl_sub show ?thesis by auto
  qed
  have R0: "memory_pool ?t a = memory_pool s a" if "a \<in> S" for a
  proof (cases pv)
    case None
    with far [OF that kS] show ?thesis by auto
  next
    case (Some j)
    with far [OF that kS] far [of a j] that pvS [OF Some] show ?thesis by auto
  qed
  have R1: "flag ?t a = (if a = k then 0 else flag s a)" if "a \<in> S" for a
  proof (cases pv)
    case None
    with far [OF that kS] show ?thesis by (auto simp: flag_def flag_cleared)
  next
    case (Some j)
    with far [OF that kS] far [of a j] that pvS [OF Some] show ?thesis
      by (auto simp: flag_def flag_cleared)
  qed
  have R2: "memory_pool ?t (a + 2) =
      (if a = k then NULL else if pv = Some a then memory_pool s (k + 2)
       else memory_pool s (a + 2))" if "a \<in> S" for a
  proof (cases pv)
    case None
    with far [OF that kS] show ?thesis by auto
  next
    case (Some j)
    with far [OF that kS] far [of a j] that pvS [OF Some] show ?thesis by auto
  qed
  have sizes': "\<forall>(b, n) \<in> set bs. memory_pool ?t b = 8 * of_nat n"
  proof (clarify)
    fix b n assume bn: "(b, n) \<in> set bs"
    then have "b \<in> S" by (force simp: S_def)
    from R0 [OF this] siz bn show "memory_pool ?t b = 8 * of_nat n" by auto
  qed
  have dis': "distinct ?fl'" using dis by auto
  have fre': "set ?fl' = {b \<in> S. flag ?t b \<noteq> 0}"
  proof (intro set_eqI iffI)
    fix x assume x: "x \<in> set ?fl'"
    with dis have xk: "x \<noteq> k" and xf: "x \<in> set ?fl" by auto
    with fre have xS: "x \<in> S" and "flag s x \<noteq> 0" by auto
    with R1 [OF xS] xk show "x \<in> {b \<in> S. flag ?t b \<noteq> 0}" by simp
  next
    fix x assume "x \<in> {b \<in> S. flag ?t b \<noteq> 0}"
    then have xS: "x \<in> S" and fx: "flag ?t x \<noteq> 0" by auto
    with R1 [OF xS] have xk: "x \<noteq> k" and "flag s x \<noteq> 0" by (auto split: if_splits)
    with xS fre have "x \<in> set ?fl" by simp
    with xk show "x \<in> set ?fl'" by auto
  qed
  have keep: "memory_pool ?t (a + 2) = memory_pool s (a + 2)"
    if "a \<in> set ?fl" "a \<noteq> k" "pv \<noteq> Some a" for a
  proof -
    from that(1) fl_sub have "a \<in> S" by auto
    from R2 [OF this] that show ?thesis by auto
  qed
  from lnk obtain r where pre: "links s (free_list_head s) pre r" and r: "r = at s k"
    and post: "links s (memory_pool s (k + 2)) post NULL"
    by (auto simp: links_append)
  have post': "links ?t (memory_pool s (k + 2)) post NULL"
  proof -
    have "\<forall>a \<in> set post. memory_pool ?t (a + 2) = memory_pool s (a + 2)"
    proof
      fix a assume a: "a \<in> set post"
      with dis have "a \<noteq> k" by auto
      moreover have "pv \<noteq> Some a" using pvS [of a] a dis by auto
      ultimately show "memory_pool ?t (a + 2) = memory_pool s (a + 2)"
        using keep [of a] a by simp
    qed
    with post show ?thesis by (simp add: links_frame [of ?t s])
  qed
  have lnk': "links ?t (free_list_head ?t) ?fl' NULL"
  proof (cases "pre = []")
    case True
    with pv have "pv = None" by simp
    with True post' show ?thesis by simp
  next
    case False
    then obtain pre0 j where pre_eq: "pre = pre0 @ [j]" by (metis rev_exhaust)
    with pv have pvj: "pv = Some j" by simp
    from pre pre_eq r obtain r0 where p0: "links s (free_list_head s) pre0 r0" and r0: "r0 = at s j"
      by (auto simp: links_append)
    have "\<forall>a \<in> set pre0. memory_pool ?t (a + 2) = memory_pool s (a + 2)"
    proof
      fix a assume a: "a \<in> set pre0"
      with dis pre_eq have "a \<noteq> k" "a \<noteq> j" by auto
      with keep [of a] a pre_eq pvj show "memory_pool ?t (a + 2) = memory_pool s (a + 2)"
        by simp
    qed
    with p0 have p0': "links ?t (free_list_head s) pre0 r0" by (simp add: links_frame [of ?t s])
    have jS: "j \<in> S" "j \<noteq> k" using pvS [OF pvj] by simp_all
    from R2 [OF jS(1)] pvj jS(2) have "memory_pool ?t (j + 2) = memory_pool s (k + 2)" by simp
    with p0' r0 post' pvj pre_eq show ?thesis
      by (auto simp: links_append)
  qed
  show ?thesis
    unfolding layout_def
    using ok ini til sizes' dis' fre' lnk' by (simp add: S_def)
qed

subsection \<open>The operations on a layout\<close>

lemma layout_block:
  assumes "layout s bs fl" and "(k, m) \<in> set bs"
  shows "4 \<le> m" and "k + m \<le> 131072" and "memory_pool s k = 8 * of_nat m"
  using assms tiles_member [of 0 bs 131072 k m] by (auto simp: layout_def)

lemma layout_free_block:
  assumes "layout s bs fl" and "k \<in> set fl"
  obtains m where "(k, m) \<in> set bs" and "flag s k \<noteq> 0"
  using assms by (auto simp: layout_def)

lemma le_cells:
  assumes "q < 2 ^ 61" and "m \<le> 131072"
  shows "(8 * of_nat q :: 64 word) \<le> 8 * of_nat m \<longleftrightarrow> q \<le> m"
  using assms by (simp add: word_le_nat_alt unat_word_ariths unat_of_nat)

lemma my_allocator_init_fresh:
  assumes "base_ok s" and "\<not> allocator_initialized s"
  shows "my_allocator_init s = Some (after_init s)"
  using assms
  by (simp add: my_allocator_init_def after_init_def field_at at_0 [symmetric] numeral_2_eq_2
      del: at_0)

lemma layout_after_init:
  assumes "base_ok s"
  shows "layout (after_init s) [(0, 131072)] [0]"
  using assms
  by (auto simp: layout_def after_init_def POOL_SIZE_def flag_def flag_set base_ok_def at_def)

lemma my_malloc_none:
  assumes lay: "layout s bs fl" and n: "n \<noteq> 0"
    and small: "\<forall>j \<in> set fl. \<not> total_needed_size n \<le> memory_pool s j"
  shows "my_malloc s n = Some (s, NULL)"
proof -
  from lay have ok: "base_ok s" and ini: "allocator_initialized s"
    and lnk: "links s (free_list_head s) fl NULL"
    by (simp_all add: layout_def)
  have "\<forall>k \<in> set fl. k + 2 < 131072 \<and>
      \<not> (flag s k \<noteq> 0 \<and> total_needed_size n \<le> memory_pool s k)"
  proof
    fix k assume k: "k \<in> set fl"
    from layout_free_block [OF lay k] obtain m where "(k, m) \<in> set bs" by auto
    from layout_block(1,2) [OF lay this] have "k + 2 < 131072" by simp
    with small k
    show "k + 2 < 131072 \<and> \<not> (flag s k \<noteq> 0 \<and> total_needed_size n \<le> memory_pool s k)"
      by simp
  qed
  from first_fit_scan [OF ok lnk this, of NULL]
  show ?thesis using n ini by (simp add: my_malloc_def first_fit_NULL)
qed

lemma my_malloc_found:
  assumes lay: "layout s bs (pre @ k # post)" and n: "n \<noteq> 0"
    and small: "\<forall>j \<in> set pre. \<not> total_needed_size n \<le> memory_pool s j"
    and fit: "total_needed_size n \<le> memory_pool s k"
    and q: "total_needed_size n = 8 * of_nat q" "4 \<le> q" "q < 2 ^ 61"
    and km: "(k, m) \<in> set bs"
    and pv: "pv = (if pre = [] then None else Some (last pre))"
  shows "my_malloc s n =
         Some (if q + 4 \<le> m then after_split s k q pv else after_consume s k pv, at s (k + 3))"
proof -
  let ?fl = "pre @ k # post"
  from lay have ok: "base_ok s" and ini: "allocator_initialized s"
    and lnk: "links s (free_list_head s) ?fl NULL"
    by (simp_all add: layout_def)
  have bound: "j + 2 < 131072" if "j \<in> set ?fl" for j
  proof -
    from layout_free_block [OF lay that] obtain m where "(j, m) \<in> set bs" by auto
    from layout_block [OF lay this] show ?thesis by simp
  qed
  from lnk have pre: "links s (free_list_head s) pre (at s k)"
    by (auto simp: links_append)
  have skip: "\<forall>j \<in> set pre. j + 2 < 131072 \<and>
      \<not> (flag s j \<noteq> 0 \<and> total_needed_size n \<le> memory_pool s j)"
    using small bound by simp
  have pvb: "case pv of None \<Rightarrow> True | Some j \<Rightarrow> j + 2 < 131072"
    using pv bound by (auto split: option.splits)
  have prev: "(if pre = [] then NULL else at s (last pre)) = link_ptr s pv"
    using pv by (simp add: link_ptr_def)
  from layout_free_block [OF lay, of k] have fk: "flag s k \<noteq> 0" by auto
  note blk = layout_block [OF lay km]
  have qm: "q \<le> m" using fit q blk by (simp add: le_cells)
  have "my_malloc s n = first_fit s (total_needed_size n) (free_list_head s) NULL"
    using n ini by (simp add: my_malloc_def)
  also have "\<dots> = first_fit s (total_needed_size n) (at s k) (link_ptr s pv)"
    using first_fit_scan [OF ok pre skip, of NULL] prev by simp
  also have "\<dots> = take_block s (total_needed_size n) (at s k) (link_ptr s pv)"
    using bound [of k] fk fit by (intro first_fit_found [OF ok]) simp_all
  also have "\<dots> = Some (if q + 4 \<le> m then after_split s k q pv else after_consume s k pv,
      at s (k + 3))"
    unfolding q(1)
    using take_block_split [OF ok blk(2,3) q(2) _ pvb]
      take_block_consume [OF ok blk(2,3,1) _ qm pvb]
    by simp
  finally show ?thesis .
qed

lemma unat_pool_end:
  assumes "base_ok s"
  shows "unat (pool_base s + POOL_SIZE) = unat (pool_base s) + 1048576"
  using assms by (simp add: base_ok_def POOL_SIZE_def unat_word_ariths)

lemma block_not_rejected:
  assumes "base_ok s" and "k < 131072"
  shows "\<not> rejected_by_bounds s (at s (k + 3))"
proof -
  have "at s (k + 3) - sizeof_BlockHeader = at s k"
    by (simp add: at_def sizeof_BlockHeader_def algebra_simps)
  then show ?thesis
    using assms unat_at [OF assms(1), of k] unat_pool_end [OF assms(1)]
    by (simp add: rejected_by_bounds_def word_less_nat_alt word_le_nat_alt)
qed

lemma my_free_block:
  assumes lay: "layout s bs fl" and km: "(k, m) \<in> set bs"
  shows "my_free s (at s (k + 3)) = Some (if flag s k \<noteq> 0 then s else after_free s k)"
proof -
  from lay have ok: "base_ok s" and ini: "allocator_initialized s"
    by (simp_all add: layout_def)
  note blk = layout_block [OF lay km]
  have sub: "at s (k + 3) - sizeof_BlockHeader = at s k"
    by (simp add: at_def sizeof_BlockHeader_def algebra_simps)
  have k: "k < 131072" "k + 3 \<le> 131072" using blk by simp_all
  have nn: "at s (k + 3) \<noteq> NULL" by (rule at_not_NULL [OF ok k(2)])
  have nr: "\<not> rejected_by_bounds s (at s (k + 3))" by (rule block_not_rejected [OF ok k(1)])
  show ?thesis
    using nn ini nr blk ok unfolding my_free_def rejected_by_bounds_def sub
    by (simp add: field_at after_free_def)
qed

lemma after_free_fields [simp]:
  "pool_base (after_free s k) = pool_base s"
  "allocator_initialized (after_free s k) = allocator_initialized s"
  "free_list_head (after_free s k) = at s k"
  "at (after_free s k) x = at s x"
  "base_ok (after_free s k) = base_ok s"
  by (simp_all add: after_free_def at_def base_ok_def)

lemma layout_free:
  assumes lay: "layout s bs fl" and km: "(k, m) \<in> set bs" and f0: "flag s k = 0"
  shows "layout (after_free s k) bs (k # fl)"
proof -
  let ?t = "after_free s k"
  define S where "S = fst ` set bs"
  from lay have ok: "base_ok s" and ini: "allocator_initialized s"
    and til: "tiles 0 bs 131072"
    and siz: "\<forall>(b, n) \<in> set bs. memory_pool s b = 8 * of_nat n"
    and dis: "distinct fl"
    and fre: "set fl = {b \<in> S. flag s b \<noteq> 0}"
    and lnk: "links s (free_list_head s) fl NULL"
    by (simp_all add: layout_def S_def)
  have kS: "k \<in> S" using km by (force simp: S_def)
  have far: "a = k \<or> a + 4 \<le> k \<or> k + 4 \<le> a" if "a \<in> S" for a
    using tiles_far [OF til, of a k] that kS by (simp add: S_def)
  have R0: "memory_pool ?t a = memory_pool s a" if "a \<in> S" for a
    using far [OF that] by (auto simp: after_free_def)
  have R1: "flag ?t a = (if a = k then 1 else flag s a)" if "a \<in> S" for a
    using far [OF that] by (auto simp: after_free_def flag_def flag_set)
  have R2: "memory_pool ?t (a + 2) = (if a = k then free_list_head s else memory_pool s (a + 2))"
    if "a \<in> S" for a
    using far [OF that] by (auto simp: after_free_def)
  have sizes': "\<forall>(b, n) \<in> set bs. memory_pool ?t b = 8 * of_nat n"
  proof (clarify)
    fix b n assume bn: "(b, n) \<in> set bs"
    then have "b \<in> S" by (force simp: S_def)
    from R0 [OF this] siz bn show "memory_pool ?t b = 8 * of_nat n" by auto
  qed
  have k_new: "k \<notin> set fl" using fre f0 by simp
  have fre': "set (k # fl) = {b \<in> S. flag ?t b \<noteq> 0}"
  proof -
    have "flag ?t b \<noteq> 0 \<longleftrightarrow> b = k \<or> flag s b \<noteq> 0" if "b \<in> S" for b
      using R1 [OF that] by simp
    with fre kS show ?thesis by auto
  qed
  have "\<forall>a \<in> set fl. memory_pool ?t (a + 2) = memory_pool s (a + 2)"
  proof
    fix a assume a: "a \<in> set fl"
    with fre k_new have "a \<in> S" "a \<noteq> k" by auto
    with R2 show "memory_pool ?t (a + 2) = memory_pool s (a + 2)" by simp
  qed
  with lnk have "links ?t (free_list_head s) fl NULL" by (simp add: links_frame [of ?t s])
  with R2 [OF kS] have lnk': "links ?t (free_list_head ?t) (k # fl) NULL" by simp
  show ?thesis
    unfolding layout_def
    using ok ini til sizes' dis k_new fre' lnk' by (simp add: S_def)
qed

subsection \<open>What the observers see of a layout\<close>

lemma pool_walk_tiles:
  assumes "base_ok s" and "tiles k bs 131072"
    and "\<forall>(b, n) \<in> set bs. memory_pool s b = 8 * of_nat n"
  shows "pool_walk s (8 * k) = Some (map (\<lambda>(b, n). at s b) bs)"
  using assms(2,3)
proof (induction bs arbitrary: k)
  case Nil
  then show ?case by (subst pool_walk.simps) (simp add: POOL_SIZE_def)
next
  case (Cons x bs)
  obtain b n where x: "x = (b, n)" by (cases x)
  from Cons.prems x have b: "b = k" and n: "4 \<le> n" and t: "tiles (k + n) bs 131072"
    and sz: "memory_pool s k = 8 * of_nat n"
    and rest: "\<forall>(b, n) \<in> set bs. memory_pool s b = 8 * of_nat n"
    by auto
  from tiles_le [OF t] have kn: "k + n \<le> 131072" .
  have un: "unat (8 * of_nat n :: 64 word) = 8 * n"
    using kn by (simp add: unat_word_ariths unat_of_nat)
  with n have "unat (8 * of_nat n :: 64 word) \<noteq> 0" by simp
  then have nz: "(8 * of_nat n :: 64 word) \<noteq> 0" by auto
  have k: "k < 131072" using kn n by simp
  have gs: "get_size s (pool_base s + of_nat (8 * k)) = Some (8 * of_nat n)"
    using get_size_at [OF assms(1) refl k] sz by (simp add: at_def)
  have lt: "\<not> unat POOL_SIZE \<le> 8 * k" using k by (simp add: POOL_SIZE_def)
  have "pool_walk s (8 * k) =
      map_option ((#) (pool_base s + of_nat (8 * k))) (pool_walk s (8 * k + unat (8 * of_nat n :: 64 word)))"
    by (subst pool_walk.simps) (simp only: lt gs nz if_False option.case)
  also have "\<dots> = map_option ((#) (at s k)) (pool_walk s (8 * (k + n)))"
    by (simp only: un add_mult_distrib2) (simp add: at_def)
  finally have "pool_walk s (8 * k) = map_option ((#) (at s k)) (pool_walk s (8 * (k + n)))" .
  with Cons.IH [OF t rest] x b show ?case by simp
qed

lemma chain_links:
  assumes "base_ok s" and "\<forall>k \<in> set ks. k + 2 < 131072" and "links s p ks NULL"
  shows "chain s p (map (at s) ks)"
  using assms(2,3)
proof (induction ks arbitrary: p)
  case Nil
  then show ?case by simp
next
  case (Cons k ks)
  then show ?case using assms(1) by (simp add: field_at at_not_NULL)
qed

lemma block_is_free_at:
  "base_ok s \<Longrightarrow> k + 1 < 131072 \<Longrightarrow> block_is_free s (at s k) = (flag s k \<noteq> 0)"
  by (simp add: block_is_free_def field_at)

lemma layout_observed:
  assumes lay: "layout s bs fl"
  shows "pool_walk s 0 = Some (map (\<lambda>(b, n). at s b) bs)"
    and "distinct (map (\<lambda>(b, n). at s b) bs)"
    and "chain s (free_list_head s) (map (at s) fl)"
    and "distinct (map (at s) fl)"
    and "length fl \<le> length bs"
    and "set (map (at s) fl) = {b \<in> set (map (\<lambda>(b, n). at s b) bs). block_is_free s b}"
proof -
  from lay have ok: "base_ok s"
    and til: "tiles 0 bs 131072"
    and siz: "\<forall>(b, n) \<in> set bs. memory_pool s b = 8 * of_nat n"
    and dis: "distinct fl"
    and fre: "set fl = {b \<in> fst ` set bs. flag s b \<noteq> 0}"
    and lnk: "links s (free_list_head s) fl NULL"
    by (simp_all add: layout_def)
  have bound: "b + 4 \<le> 131072" if "b \<in> fst ` set bs" for b
  proof -
    from that obtain n where "(b, n) \<in> set bs" by auto
    from tiles_member [OF til this] show ?thesis by simp
  qed
  have inj: "inj_on (at s) (fst ` set bs)"
  proof (rule inj_onI)
    fix a b assume "a \<in> fst ` set bs" "b \<in> fst ` set bs" "at s a = at s b"
    with bound [of a] bound [of b] at_inject [OF ok, of a b] show "a = b" by simp
  qed
  have map_eq: "map (\<lambda>(b, n). at s b) bs = map (at s) (map fst bs)"
    by (simp add: case_prod_unfold comp_def)
  show "pool_walk s 0 = Some (map (\<lambda>(b, n). at s b) bs)"
    using pool_walk_tiles [OF ok til siz] by simp
  show "distinct (map (\<lambda>(b, n). at s b) bs)"
  proof -
    have "distinct (map (at s) (map fst bs))"
      using tiles_distinct [OF til] inj by (subst distinct_map) simp
    then show ?thesis by (simp only: map_eq)
  qed
  have fl_sub: "set fl \<subseteq> fst ` set bs" using fre by auto
  show "chain s (free_list_head s) (map (at s) fl)"
  proof (rule chain_links [OF ok _ lnk])
    show "\<forall>k \<in> set fl. k + 2 < 131072" using fl_sub bound by fastforce
  qed
  show "distinct (map (at s) fl)"
    using dis inj fl_sub by (auto simp: distinct_map intro: inj_on_subset)
  have "length fl = card (set fl)" using dis by (simp add: distinct_card)
  also have "\<dots> \<le> card (fst ` set bs)" using fl_sub by (simp add: card_mono)
  also have "\<dots> \<le> length bs" by (metis card_image_le card_length le_trans List.finite_set)
  finally show "length fl \<le> length bs" .
  show "set (map (at s) fl) = {b \<in> set (map (\<lambda>(b, n). at s b) bs). block_is_free s b}"
  proof -
    have "block_is_free s (at s b) = (flag s b \<noteq> 0)" if "b \<in> fst ` set bs" for b
      using bound [OF that] by (intro block_is_free_at [OF ok]) simp
    then have "{b \<in> at s ` fst ` set bs. block_is_free s b} = at s ` {b \<in> fst ` set bs. flag s b \<noteq> 0}"
      by auto
    moreover have "set (map (at s) (map fst bs)) = at s ` fst ` set bs" by (simp add: image_comp)
    moreover have "set (map (at s) fl) = at s ` {b \<in> fst ` set bs. flag s b \<noteq> 0}"
      using fre by simp
    ultimately show ?thesis by (simp only: map_eq)
  qed
qed

subsection \<open>Sequences of calls\<close>

lemma my_malloc_cases:
  assumes lay: "layout s bs fl" and n: "n \<noteq> 0"
  obtains (none) "my_malloc s n = Some (s, NULL)"
      "\<forall>j \<in> set fl. \<not> total_needed_size n \<le> memory_pool s j"
    | (split) pre k post m q pv where
      "fl = pre @ k # post" "(k, m) \<in> set bs" "total_needed_size n = 8 * of_nat q"
      "4 \<le> q" "q + 4 \<le> m"
      "\<forall>j \<in> set pre. \<not> total_needed_size n \<le> memory_pool s j"
      "pv = (if pre = [] then None else Some (last pre))"
      "my_malloc s n = Some (after_split s k q pv, at s (k + 3))"
    | (consume) pre k post m q pv where
      "fl = pre @ k # post" "(k, m) \<in> set bs" "total_needed_size n = 8 * of_nat q"
      "q \<le> m" "\<not> q + 4 \<le> m"
      "\<forall>j \<in> set pre. \<not> total_needed_size n \<le> memory_pool s j"
      "pv = (if pre = [] then None else Some (last pre))"
      "my_malloc s n = Some (after_consume s k pv, at s (k + 3))"
proof (cases "\<exists>j \<in> set fl. total_needed_size n \<le> memory_pool s j")
  case False
  then have small: "\<forall>j \<in> set fl. \<not> total_needed_size n \<le> memory_pool s j" by simp
  from my_malloc_none [OF lay n small] small show ?thesis by (rule none)
next
  case True
  from split_list_first_prop [OF True] obtain pre k post where
    fl: "fl = pre @ k # post" and fit: "total_needed_size n \<le> memory_pool s k"
    and small: "\<forall>j \<in> set pre. \<not> total_needed_size n \<le> memory_pool s j"
    by blast
  from total_needed_size_cells [of n] obtain q where
    q: "total_needed_size n = 8 * of_nat q" "4 \<le> q" "q < 2 ^ 61" by blast
  have "k \<in> set fl" using fl by simp
  from layout_free_block [OF lay this] obtain m where km: "(k, m) \<in> set bs" by auto
  note blk = layout_block [OF lay km]
  have qm: "q \<le> m" using fit q blk by (simp add: le_cells)
  define pv where "pv = (if pre = [] then None else Some (last pre))"
  note found = my_malloc_found [OF lay [unfolded fl] n small fit q km pv_def]
  show ?thesis
  proof (cases "q + 4 \<le> m")
    case True
    with found show ?thesis by (intro split [OF fl km q(1,2) True small pv_def]) simp
  next
    case False
    with found show ?thesis by (intro consume [OF fl km q(1) qm False small pv_def]) simp
  qed
qed

lemma issued_mono:
  assumes "issued s bs hs" and "fst ` set bs \<subseteq> fst ` set bs'" and "pool_base t = pool_base s"
  shows "issued t bs' hs"
proof -
  have "at t = at s" using assms(3) by (simp add: at_def fun_eq_iff)
  with assms(1,2) show ?thesis unfolding issued_def by fastforce
qed

lemma my_malloc_config_ok:
  assumes "config_ok (s, hs)"
  shows "\<exists>s' p. my_malloc s n = Some (s', p) \<and> config_ok (s', p # hs)"
proof -
  from assms obtain bs fl where lay: "layout s bs fl" and iss: "issued s bs hs"
    by (auto simp: config_ok_def)
  show ?thesis
  proof (cases "n = 0")
    case True
    from lay have "allocator_initialized s" by (simp add: layout_def)
    with True have "my_malloc s n = Some (s, NULL)" by (simp add: my_malloc_def)
    moreover have "config_ok (s, NULL # hs)"
      using lay iss by (auto simp: config_ok_def issued_def)
    ultimately show ?thesis by blast
  next
    case False
    from lay False show ?thesis
    proof (cases rule: my_malloc_cases)
      case none
      moreover have "config_ok (s, NULL # hs)"
        using lay iss by (auto simp: config_ok_def issued_def)
      ultimately show ?thesis by blast
    next
      case (split pre k post m q pv)
      from split(2) obtain xs ys where bs: "bs = xs @ (k, m) # ys"
        by (auto simp: in_set_conv_decomp)
      let ?t = "after_split s k q pv"
      let ?bs' = "xs @ (k, q) # (k + q, m - q) # ys"
      have lay': "layout ?t ?bs' (pre @ (k + q) # post)"
        using layout_split [OF lay [unfolded bs split(1)] split(4,5,7)] .
      have "issued ?t ?bs' hs"
        by (rule issued_mono [OF iss]) (auto simp: bs)
      moreover have "\<exists>j \<in> fst ` set ?bs'. at s (k + 3) = at ?t (j + 3)"
        by (rule bexI [of _ k]) simp_all
      ultimately have "issued ?t ?bs' (at s (k + 3) # hs)"
        by (simp add: issued_def)
      with lay' have "config_ok (?t, at s (k + 3) # hs)"
        unfolding config_ok_def by auto
      with split(8) show ?thesis by blast
    next
      case (consume pre k post m q pv)
      let ?t = "after_consume s k pv"
      have lay': "layout ?t bs (pre @ post)"
        using layout_consume [OF lay [unfolded consume(1)] consume(7)] .
      have "issued ?t bs hs"
        by (rule issued_mono [OF iss]) simp_all
      moreover have "\<exists>j \<in> fst ` set bs. at s (k + 3) = at ?t (j + 3)"
        using consume(2) by (intro bexI [of _ k]) force+
      ultimately have "issued ?t bs (at s (k + 3) # hs)"
        by (simp add: issued_def)
      with lay' have "config_ok (?t, at s (k + 3) # hs)"
        unfolding config_ok_def by auto
      with consume(8) show ?thesis by blast
    qed
  qed
qed

lemma my_free_config_ok:
  assumes ok: "config_ok (s, hs)"
    and p: "p = NULL \<or> p \<in> set hs \<or> follows_header s p \<or> rejected_by_bounds s p"
  shows "\<exists>s'. my_free s p = Some s' \<and> config_ok (s', hs)"
proof -
  from ok obtain bs fl where lay: "layout s bs fl" and iss: "issued s bs hs"
    by (auto simp: config_ok_def)
  have "\<exists>k \<in> fst ` set bs. p = at s (k + 3)" if "follows_header s p"
  proof -
    from that layout_observed(1) [OF lay]
    have "p - sizeof_BlockHeader \<in> set (map (\<lambda>(b, n). at s b) bs)"
      by (simp add: follows_header_def)
    then obtain k m where km: "(k, m) \<in> set bs" and "p - sizeof_BlockHeader = at s k"
      by auto
    then have "p = at s k + sizeof_BlockHeader" by (simp add: algebra_simps)
    then have "p = at s (k + 3)" by (simp add: sizeof_BlockHeader_def)
    with km show ?thesis by force
  qed
  with p iss have "p = NULL \<or> rejected_by_bounds s p \<or> (\<exists>k \<in> fst ` set bs. p = at s (k + 3))"
    unfolding issued_def by blast
  then consider "p = NULL \<or> rejected_by_bounds s p"
    | k where "k \<in> fst ` set bs" "p = at s (k + 3)"
    by blast
  then show ?thesis
  proof cases
    case 1
    then have "my_free s p = Some s"
      by (auto simp: my_free_def rejected_by_bounds_def)
    with ok show ?thesis by simp
  next
    case 2
    then obtain m where km: "(k, m) \<in> set bs" by auto
    show ?thesis
    proof (cases "flag s k = 0")
      case False
      with my_free_block [OF lay km] 2 ok show ?thesis by simp
    next
      case True
      have "issued (after_free s k) bs hs"
        by (rule issued_mono [OF iss]) simp_all
      with layout_free [OF lay km True] have "config_ok (after_free s k, hs)"
        unfolding config_ok_def by auto
      with my_free_block [OF lay km] 2 True show ?thesis by simp
    qed
  qed
qed

lemma exec_config_ok:
  assumes "config_ok c" and "call_ok c x"
  shows "\<exists>c'. exec c x = Some c' \<and> config_ok c'"
proof -
  obtain s hs where c: "c = (s, hs)" by (cases c)
  show ?thesis
  proof (cases x)
    case Init
    from assms(1) c have "allocator_initialized s" by (auto simp: config_ok_def layout_def)
    then have "my_allocator_init s = Some s" by (simp add: my_allocator_init_def)
    with assms(1) c Init show ?thesis by simp
  next
    case (Allocate n)
    from my_malloc_config_ok [OF assms(1) [unfolded c], of n] c Allocate
    show ?thesis by auto
  next
    case (Deallocate p)
    with assms(2) c
    have "p = NULL \<or> p \<in> set hs \<or> follows_header s p \<or> rejected_by_bounds s p" by simp
    from my_free_config_ok [OF assms(1) [unfolded c] this] c Deallocate
    show ?thesis by auto
  qed
qed

lemma run_config_ok:
  assumes "config_ok c" and "legal c xs"
  shows "\<exists>c'. run c xs = Some c' \<and> config_ok c'"
  using assms
proof (induction xs arbitrary: c)
  case Nil
  then show ?case by simp
next
  case (Cons x xs)
  from Cons.prems have "call_ok c x" by simp
  from exec_config_ok [OF Cons.prems(1) this] obtain c' where
    c': "exec c x = Some c'" "config_ok c'" by blast
  with Cons.prems(2) have "legal c' xs" by simp
  from Cons.IH [OF c'(2) this] c'(1) show ?case by simp
qed

subsection \<open>Evaluation on concrete states\<close>

lemmas model_defs = startup_def my_allocator_init_def my_malloc_def my_free_def
  total_needed_size_def ALIGN_def ALIGNMENT_def sizeof_BlockHeader_def POOL_SIZE_def NULL_def
  suitable_def take_block_def split_block_def use_entire_block_def
  get_size_def set_size_def get_is_free_def set_is_free_def get_next_free_def set_next_free_def
  load64_def store64_def cell_of_def rejected_by_bounds_def follows_header_def
  block_is_free_def

lemma my_malloc_fresh:
  assumes "base_ok s" and "\<not> allocator_initialized s"
  shows "my_malloc s n = my_malloc (after_init s) n"
  using assms by (simp add: my_malloc_def my_allocator_init_fresh after_init_def)

lemma config_ok_after_init:
  assumes "base_ok s"
  shows "config_ok (after_init s, [])"
  using layout_after_init [OF assms] by (auto simp: config_ok_def issued_def)

lemma chain_unique:
  "chain s p xs \<Longrightarrow> chain s p ys \<Longrightarrow> xs = ys"
proof (induction xs arbitrary: p ys)
  case Nil
  then show ?case by (cases ys) auto
next
  case (Cons x xs)
  then show ?case by (cases ys) (auto split: option.splits)
qed

lemma first_fit_no_fit:
  assumes "chain s p fl" and "\<forall>b \<in> set fl. suitable s needed b = Some False"
  shows "first_fit s needed p prev = Some (s, NULL)"
  using assms
proof (induction fl arbitrary: p prev)
  case Nil
  then show ?case by (simp add: first_fit_NULL)
next
  case (Cons b fl)
  from Cons.prems obtain q where p: "p = b" "b \<noteq> NULL" and nx: "get_next_free s b = Some q"
    and rest: "chain s q fl" and un: "suitable s needed b = Some False"
    by (auto split: option.splits)
  have "first_fit s needed p prev = first_fit s needed q b"
    using p nx un by (subst first_fit.simps) simp
  also have "\<dots> = Some (s, NULL)"
    using Cons.prems(2) by (intro Cons.IH [OF rest]) simp
  finally show ?case .
qed

lemma my_malloc_result:
  assumes lay: "layout s bs (pre @ k # post)" and n: "n \<noteq> 0"
    and small: "\<forall>j \<in> set pre. \<not> total_needed_size n \<le> memory_pool s j"
    and fit: "total_needed_size n \<le> memory_pool s k"
  obtains (split) m q s' xs ys where
      "bs = xs @ (k, m) # ys" "total_needed_size n = 8 * of_nat q" "4 \<le> q" "q + 4 \<le> m"
      "my_malloc s n = Some (s', at s (k + 3))" "pool_base s' = pool_base s"
      "layout s' (xs @ (k, q) # (k + q, m - q) # ys) (pre @ (k + q) # post)"
    | (consume) m q s' where
      "(k, m) \<in> set bs" "total_needed_size n = 8 * of_nat q" "4 \<le> q" "q \<le> m"
      "\<not> q + 4 \<le> m"
      "my_malloc s n = Some (s', at s (k + 3))" "pool_base s' = pool_base s"
      "layout s' bs (pre @ post)"
proof -
  from total_needed_size_cells [of n] obtain q where
    q: "total_needed_size n = 8 * of_nat q" "4 \<le> q" "q < 2 ^ 61" by blast
  have "k \<in> set (pre @ k # post)" by simp
  from layout_free_block [OF lay this] obtain m where km: "(k, m) \<in> set bs" by auto
  note blk = layout_block [OF lay km]
  have qm: "q \<le> m" using fit q blk by (simp add: le_cells)
  define pv where "pv = (if pre = [] then None else Some (last pre))"
  note found = my_malloc_found [OF lay n small fit q km pv_def]
  show ?thesis
  proof (cases "q + 4 \<le> m")
    case True
    from km obtain xs ys where bs: "bs = xs @ (k, m) # ys"
      by (auto simp: in_set_conv_decomp)
    have "layout (after_split s k q pv) (xs @ (k, q) # (k + q, m - q) # ys) (pre @ (k + q) # post)"
      using layout_split [OF lay [unfolded bs] q(2) True pv_def] .
    with found True show ?thesis
      by (intro split [OF bs q(1,2) True, of "after_split s k q pv"]) simp_all
  next
    case False
    have "layout (after_consume s k pv) bs (pre @ post)"
      using layout_consume [OF lay pv_def] .
    with found False show ?thesis
      by (intro consume [OF km q(1,2) qm False, of "after_consume s k pv"]) simp_all
  qed
qed

lemma my_malloc_handout:
  assumes lay: "layout s bs fl" and n: "n \<noteq> 0"
    and res: "my_malloc s n = Some (s', p)" and p: "p \<noteq> NULL"
  obtains pre k post where "fl = pre @ k # post"
    "\<forall>j \<in> set pre. \<not> total_needed_size n \<le> memory_pool s j"
    "total_needed_size n \<le> memory_pool s k" "p = at s (k + 3)"
proof (cases "\<exists>j \<in> set fl. total_needed_size n \<le> memory_pool s j")
  case False
  then have "\<forall>j \<in> set fl. \<not> total_needed_size n \<le> memory_pool s j" by simp
  from my_malloc_none [OF lay n this] res p show ?thesis by simp
next
  case True
  from split_list_first_prop [OF True] obtain pre k post where
    fl: "fl = pre @ k # post" and fit: "total_needed_size n \<le> memory_pool s k"
    and small: "\<forall>j \<in> set pre. \<not> total_needed_size n \<le> memory_pool s j"
    by blast
  from lay [unfolded fl] n small fit have "p = at s (k + 3)"
    using res by (cases rule: my_malloc_result) simp_all
  with fl small fit show ?thesis by (rule that)
qed

lemma chain_slot:
  "chain s p (pre @ post) \<Longrightarrow>
   (pre = [] \<longrightarrow> p = (case post of [] \<Rightarrow> NULL | c # _ \<Rightarrow> c)) \<and>
   (pre \<noteq> [] \<longrightarrow> p = hd pre \<and>
      get_next_free s (last pre) = Some (case post of [] \<Rightarrow> NULL | c # _ \<Rightarrow> c))"
proof (induction pre arbitrary: p)
  case Nil
  then show ?case by (cases post) simp_all
next
  case (Cons a pre)
  then obtain r where "get_next_free s a = Some r" "chain s r (pre @ post)" "p = a"
    by (auto split: option.splits)
  with Cons.IH [of r] show ?case by (cases "pre = []") auto
qed

lemma chain_next:
  assumes "chain s p (pre @ b # post)"
  shows "get_next_free s b = Some (case post of [] \<Rightarrow> NULL | c # _ \<Rightarrow> c)"
  using chain_slot [of s p "pre @ [b]" post] assms by simp

lemma layout_free_list:
  assumes "layout s bs fl" and "chain s (free_list_head s) xs"
  shows "xs = map (at s) fl"
  using chain_unique [OF assms(2) layout_observed(3) [OF assms(1)]] .

lemma map_eq_middle:
  assumes "map f fl = pre @ b # post"
  obtains pre0 k post0 where "fl = pre0 @ k # post0" "map f pre0 = pre" "f k = b"
    "map f post0 = post"
  using assms by (auto simp: map_eq_append_conv map_eq_Cons_conv)

lemma layout_flag:
  assumes "layout s bs fl" and "(k, m) \<in> set bs"
  shows "get_is_free s (at s k) = Some (flag s k)"
    and "block_is_free s (at s k) \<longleftrightarrow> k \<in> set fl"
    and "get_size s (at s k) = Some (8 * of_nat m)"
    and "get_next_free s (at s k) = Some (memory_pool s (k + 2))"
proof -
  from assms(1) have ok: "base_ok s" by (simp add: layout_def)
  note blk = layout_block [OF assms]
  have k: "k + 2 < 131072" "k + 1 < 131072" "k < 131072" using blk by simp_all
  show "get_is_free s (at s k) = Some (flag s k)"
    by (rule get_is_free_at [OF ok refl k(2)])
  have "k \<in> fst ` set bs" using assms(2) by force
  then show "block_is_free s (at s k) \<longleftrightarrow> k \<in> set fl"
    using assms(1) block_is_free_at [OF ok k(2)] by (simp add: layout_def)
  show "get_size s (at s k) = Some (8 * of_nat m)"
    using get_size_at [OF ok refl k(3)] blk(3) by simp
  show "get_next_free s (at s k) = Some (memory_pool s (k + 2))"
    by (rule get_next_free_at [OF ok refl k(1)])
qed

lemma big_cells:
  assumes "q \<le> m" and "m \<le> 131072"
  shows "(8 * of_nat q + sizeof_BlockHeader + ALIGNMENT :: 64 word) \<le> 8 * of_nat m \<longleftrightarrow> q + 4 \<le> m"
proof -
  have "unat (8 * of_nat q + sizeof_BlockHeader + ALIGNMENT :: 64 word) = 8 * q + 32"
    using assms
    by (simp add: sizeof_BlockHeader_def ALIGNMENT_def unat_word_ariths unat_of_nat)
  moreover have "unat (8 * of_nat m :: 64 word) = 8 * m"
    using assms by (simp add: unat_word_ariths unat_of_nat)
  ultimately show ?thesis by (simp add: word_le_nat_alt) arith
qed

lemmas eval_rules = model_defs after_init_def first_fit.simps pool_walk.simps
  mask_eq_exp_minus_1 base_ok_def

text \<open>
  Every state that legal calls reach after \<open>my_allocator_init\<close> is well-formed, and every
  call on the way returns.
\<close>

lemma run_after_Init:
  assumes ok: "base_ok s" and un: "\<not> allocator_initialized s"
    and leg: "legal (s, []) (Init # cs)"
  shows "\<exists>s' hs bs fl. run (s, []) (Init # cs) = Some (s', hs) \<and> layout s' bs fl"
proof -
  have i: "exec (s, []) Init = Some (after_init s, [])"
    using my_allocator_init_fresh [OF ok un] by simp
  with leg have "legal (after_init s, []) cs" by simp
  from run_config_ok [OF config_ok_after_init [OF ok] this] i show ?thesis
    by (auto simp: config_ok_def)
qed

lemma well_formed_after_run:
  assumes "base_ok s" and "\<not> allocator_initialized s" and "legal (s, []) (Init # cs)"
  shows "well_formed (fst (the (run (s, []) (Init # cs))))"
proof -
  from run_after_Init [OF assms] obtain s' hs bs fl where
    "run (s, []) (Init # cs) = Some (s', hs)" "layout s' bs fl" by blast
  then show ?thesis unfolding well_formed_def by (simp only: option.sel fst_conv) blast
qed

subsection \<open>First fit and exhaustion, for the size that the code computes\<close>

text \<open>
  First fit, for the size that the code computes: on a well-formed (initialized)
  allocator and for \<open>N > 0\<close>, when the free list in link order is \<open>pre\<close>, then \<open>B\<close>,
  then \<open>post\<close>, every block of \<open>pre\<close> is smaller than \<open>total_needed_size N\<close> and \<open>B\<close> is
  at least that large, \<open>my_malloc(N)\<close> hands out \<open>B\<close>: it returns the address just after
  the header of \<open>B\<close>, \<open>B\<close> is allocated afterwards and the blocks of \<open>pre\<close> are still
  free.
\<close>

lemma first_fit_computed_size:
  assumes wf: "well_formed s" and n: "n \<noteq> 0"
    and ch: "chain s (free_list_head s) (pre @ B # post)"
    and small: "\<forall>b \<in> set pre. \<exists>v. get_size s b = Some v \<and> v < total_needed_size n"
    and sz: "get_size s B = Some v" and fit: "total_needed_size n \<le> v"
  shows "\<exists>s'. my_malloc s n = Some (s', B + sizeof_BlockHeader) \<and>
           \<not> block_is_free s' B \<and> (\<forall>b \<in> set pre. block_is_free s' b)"
proof -
  from wf obtain bs fl where lay: "layout s bs fl" by (auto simp: well_formed_def)
  from layout_free_list [OF lay ch] have "map (at s) fl = pre @ B # post" by simp
  then obtain pre0 k post0 where fl: "fl = pre0 @ k # post0" and pre: "map (at s) pre0 = pre"
    and B: "at s k = B"
    by (rule map_eq_middle)
  have size_of: "get_size s (at s j) = Some (memory_pool s j)" if "j \<in> set fl" for j
  proof -
    from layout_free_block [OF lay that] obtain m where jm: "(j, m) \<in> set bs" by auto
    from layout_flag(3) [OF lay jm] layout_block(3) [OF lay jm] show ?thesis by simp
  qed
  have small0: "\<forall>j \<in> set pre0. \<not> total_needed_size n \<le> memory_pool s j"
  proof
    fix j assume j: "j \<in> set pre0"
    then have "at s j \<in> set pre" using pre by auto
    with small obtain w where "get_size s (at s j) = Some w" "w < total_needed_size n" by blast
    moreover have "get_size s (at s j) = Some (memory_pool s j)"
      using j fl by (intro size_of) simp
    ultimately show "\<not> total_needed_size n \<le> memory_pool s j" by simp
  qed
  have fit0: "total_needed_size n \<le> memory_pool s k"
    using size_of [of k] fl sz fit B by simp
  have dis: "distinct fl" using lay by (simp add: layout_def)
  have handle: "B + sizeof_BlockHeader = at s (k + 3)"
    using B by (simp add: sizeof_BlockHeader_def at_def algebra_simps)
  have freed: "\<not> block_is_free s' B \<and> (\<forall>b \<in> set pre. block_is_free s' b)"
    if lay': "layout s' bs' fl'" and base: "pool_base s' = pool_base s"
      and kb: "k \<in> fst ` set bs'" and kf: "k \<notin> set fl'" and pf: "set pre0 \<subseteq> set fl'"
    for s' bs' fl'
  proof
    from kb obtain m' where "(k, m') \<in> set bs'" by auto
    from layout_flag(2) [OF lay' this] kf B show "\<not> block_is_free s' B"
      by (simp add: at_same_base [OF base])
    show "\<forall>b \<in> set pre. block_is_free s' b"
    proof
      fix b assume "b \<in> set pre"
      then obtain j where j: "j \<in> set pre0" "b = at s j" using pre by auto
      with pf have jf: "j \<in> set fl'" by auto
      from layout_free_block [OF lay' jf] obtain m' where "(j, m') \<in> set bs'" by auto
      from layout_flag(2) [OF lay' this] jf j show "block_is_free s' b"
        by (simp add: at_same_base [OF base])
    qed
  qed
  from lay [unfolded fl] n small0 fit0 show ?thesis
  proof (cases rule: my_malloc_result)
    case (split m q s' xs ys)
    have "\<not> block_is_free s' B \<and> (\<forall>b \<in> set pre. block_is_free s' b)"
      using dis fl split(3) by (intro freed [OF split(7,6)]) auto
    with split(5) handle show ?thesis by simp
  next
    case (consume m q s')
    have "\<not> block_is_free s' B \<and> (\<forall>b \<in> set pre. block_is_free s' b)"
      using dis fl consume(1) by (intro freed [OF consume(8,7)]) force+
    with consume(6) handle show ?thesis by simp
  qed
qed

lemma first_fit_computed_size_example:
  "(case run (startup 4096, [])
           [Init, Allocate 100, Allocate 200, Deallocate 4248, Deallocate 4120] of
      None \<Rightarrow> False
    | Some (s, hs) \<Rightarrow>
        well_formed s \<and> chain s (free_list_head s) ([4096] @ 4224 # [4448]) \<and>
        get_size s 4096 = Some 128 \<and> (128 :: size_t) < total_needed_size 190 \<and>
        get_size s 4224 = Some 224 \<and> total_needed_size 190 \<le> 224 \<and>
        (\<exists>s'. my_malloc s 190 = Some (s', 4224 + sizeof_BlockHeader) \<and>
              \<not> block_is_free s' 4224 \<and> (\<forall>b \<in> set [4096]. block_is_free s' b)))"
proof -
  define s where "s = fst (the (run (startup 4096, [])
    (Init # [Allocate 100, Allocate 200, Deallocate 4248, Deallocate 4120])))"
  have r: "run (startup 4096, [])
      [Init, Allocate 100, Allocate 200, Deallocate 4248, Deallocate 4120] =
      Some (s, [4248, 4120])"
    unfolding s_def by (simp add: eval_rules)
  have wf: "well_formed s"
    unfolding s_def by (rule well_formed_after_run) (simp_all add: eval_rules)
  have h: "chain s (free_list_head s) ([4096] @ 4224 # [4448])"
    "get_size s 4096 = Some 128" "(128 :: size_t) < total_needed_size 190"
    "get_size s 4224 = Some 224" "total_needed_size 190 \<le> 224"
    unfolding s_def by (simp_all add: eval_rules)
  from h(2,3) have small: "\<forall>b \<in> set [4096]. \<exists>v. get_size s b = Some v \<and>
      v < total_needed_size 190" by simp
  have n: "(190 :: size_t) \<noteq> 0" by simp
  from first_fit_computed_size [OF wf n h(1) small h(4,5)] wf h
  show ?thesis unfolding r by simp
qed

text \<open>
  No fit, for the size that the code computes: on an initialized allocator whose free
  list is a chain that ends in \<open>NULL\<close>, if every block of the chain has a size below
  \<open>total_needed_size N\<close> for \<open>N > 0\<close>, then \<open>my_malloc(N)\<close> returns \<open>NULL\<close> and the
  state, pool and free-list head included, is the one before the call.
\<close>

lemma no_fit_computed_size:
  assumes "allocator_initialized s" and "n \<noteq> 0"
    and "chain s (free_list_head s) fl"
    and "\<forall>b \<in> set fl. \<exists>v f. get_size s b = Some v \<and> get_is_free s b = Some f \<and>
           v < total_needed_size n"
  shows "my_malloc s n = Some (s, NULL)"
proof -
  have "\<forall>b \<in> set fl. suitable s (total_needed_size n) b = Some False"
  proof
    fix b assume "b \<in> set fl"
    with assms(4) obtain v f where "get_size s b = Some v" "get_is_free s b = Some f"
      "v < total_needed_size n" by blast
    then show "suitable s (total_needed_size n) b = Some False"
      by (simp add: suitable_def not_le)
  qed
  from first_fit_no_fit [OF assms(3) this] assms(1,2) show ?thesis
    by (simp add: my_malloc_def)
qed

lemma no_fit_computed_size_example:
  "(case run (startup 4096, []) [Init, Allocate 100, Allocate 1048424, Deallocate 4120] of
      None \<Rightarrow> False
    | Some (s, hs) \<Rightarrow>
        allocator_initialized s \<and> chain s (free_list_head s) [4096] \<and>
        get_size s 4096 = Some 128 \<and> get_is_free s 4096 = Some 1 \<and>
        (128 :: size_t) < total_needed_size 200 \<and> my_malloc s 200 = Some (s, NULL))"
proof -
  define s where "s = fst (the (run (startup 4096, [])
    [Init, Allocate 100, Allocate 1048424, Deallocate 4120]))"
  have r: "run (startup 4096, []) [Init, Allocate 100, Allocate 1048424, Deallocate 4120] =
      Some (s, [4248, 4120])"
    unfolding s_def by (simp add: eval_rules)
  have h: "allocator_initialized s" "chain s (free_list_head s) [4096]"
    "get_size s 4096 = Some 128" "get_is_free s 4096 = Some 1"
    "(128 :: size_t) < total_needed_size 200"
    unfolding s_def by (simp_all add: eval_rules)
  from h have "\<forall>b \<in> set [4096]. \<exists>v f. get_size s b = Some v \<and> get_is_free s b = Some f \<and>
      v < total_needed_size 200"
    by simp
  from no_fit_computed_size [OF h(1) _ h(2) this] have "my_malloc s 200 = Some (s, NULL)"
    by simp
  with h show ?thesis unfolding r by simp
qed

text \<open>
  As long as \<open>N + 31\<close> does not wrap around, the size that the code computes is the
  size of the spec, and both properties hold in the spec's words.
\<close>

lemma first_fit_in_range:
  assumes "well_formed s" and "n \<noteq> 0" and "unat n + 31 < 2 ^ 64"
    and "chain s (free_list_head s) (pre @ B # post)"
    and "\<forall>b \<in> set pre. \<exists>v. get_size s b = Some v \<and> unat v < needed_spec (unat n)"
    and "get_size s B = Some v" and "needed_spec (unat n) \<le> unat v"
  shows "\<exists>s'. my_malloc s n = Some (s', B + sizeof_BlockHeader) \<and>
           \<not> block_is_free s' B \<and> (\<forall>b \<in> set pre. block_is_free s' b)"
proof -
  note eq = total_needed_size_spec [OF assms(3)]
  have "\<forall>b \<in> set pre. \<exists>v. get_size s b = Some v \<and> v < total_needed_size n"
    using assms(5) by (simp add: word_less_nat_alt eq)
  moreover have "total_needed_size n \<le> v"
    using assms(7) by (simp add: word_le_nat_alt eq)
  ultimately show ?thesis
    using first_fit_computed_size [OF assms(1,2,4) _ assms(6)] by blast
qed

lemma no_fit_in_range:
  assumes "allocator_initialized s" and "n \<noteq> 0" and "unat n + 31 < 2 ^ 64"
    and "chain s (free_list_head s) fl"
    and "\<forall>b \<in> set fl. \<exists>v f. get_size s b = Some v \<and> get_is_free s b = Some f \<and>
           unat v < needed_spec (unat n)"
  shows "my_malloc s n = Some (s, NULL)"
proof -
  note eq = total_needed_size_spec [OF assms(3)]
  have "\<forall>b \<in> set fl. \<exists>v f. get_size s b = Some v \<and> get_is_free s b = Some f \<and>
      v < total_needed_size n"
    using assms(5) by (simp add: word_less_nat_alt eq)
  with assms(1,2,4) show ?thesis by (rule no_fit_computed_size)
qed

section \<open>The claims\<close>

text \<open>
  C1, as amended: start from an allocator that is not initialized, placed without
  wrapping around the address space, and call \<open>my_allocator_init\<close>; then, for every
  sequence of calls in which each argument of \<open>my_free\<close> is \<open>NULL\<close>, a pointer that an
  earlier \<open>my_malloc\<close> of the sequence returned (or any other address that follows the
  header of a block of the pool), or a pointer that the bounds check rejects, every
  call returns, and afterwards the walk from the first byte of the pool that advances
  by the size of each block lands exactly on the end of the pool and visits no block
  twice.
\<close>

theorem coverage_invariant:
  assumes "base_ok s" and "\<not> allocator_initialized s" and "legal (s, []) (Init # cs)"
  shows "\<exists>s' hs bs. run (s, []) (Init # cs) = Some (s', hs) \<and>
           pool_walk s' 0 = Some bs \<and> distinct bs"
proof -
  from run_after_Init [OF assms] obtain s' hs bs fl where
    "run (s, []) (Init # cs) = Some (s', hs)" "layout s' bs fl" by blast
  with layout_observed(1,2) [of s' bs fl] show ?thesis by blast
qed

theorem coverage_invariant_witness:
  "base_ok (startup 4096) \<and> \<not> allocator_initialized (startup 4096) \<and>
   legal (startup 4096, [])
     (Init # [Allocate 100, Allocate 200, Deallocate 4120, Allocate 16, Deallocate 0,
              Deallocate 4120, Deallocate 7]) \<and>
   (\<exists>s' hs bs. run (startup 4096, [])
       (Init # [Allocate 100, Allocate 200, Deallocate 4120, Allocate 16, Deallocate 0,
                Deallocate 4120, Deallocate 7]) = Some (s', hs) \<and>
       pool_walk s' 0 = Some bs \<and> distinct bs)"
proof -
  have l: "legal (startup 4096, [])
     (Init # [Allocate 100, Allocate 200, Deallocate 4120, Allocate 16, Deallocate 0,
              Deallocate 4120, Deallocate 7])"
    by (simp add: eval_rules)
  have b: "base_ok (startup 4096)" "\<not> allocator_initialized (startup 4096)"
    by (simp_all add: eval_rules)
  from coverage_invariant [OF b l] b l show ?thesis by blast
qed

text \<open>
  The claim as stated, for every sequence of calls, fails: \<open>my_free\<close> of a pointer into
  the pool that \<open>my_malloc\<close> never returned passes the bounds check, reads a zero where
  it expects \<open>is_free\<close>, and stores the old list head over the \<open>size\<close> field of the
  free block that starts 16 bytes further; the walk then no longer reaches the end of
  the pool.
\<close>

theorem coverage_invariant_counterexample:
  "run (startup 4096, []) [Init, Allocate 100, Deallocate 4232] \<noteq> None \<and>
   get_size (fst (the (run (startup 4096, []) [Init, Allocate 100, Deallocate 4232]))) 4224 =
     Some 4224 \<and>
   pool_walk (fst (the (run (startup 4096, []) [Init, Allocate 100, Deallocate 4232]))) 0 =
     None"
  by (simp add: eval_rules)

text \<open>
  C2, as amended: under the same condition on the calls as for C1, after every call
  the free list is a chain from the head to \<open>NULL\<close> that visits no block twice, has at
  most as many entries as the pool has blocks, and holds exactly the blocks of the
  pool whose \<open>is_free\<close> is set.
\<close>

theorem free_list_consistency:
  assumes "base_ok s" and "\<not> allocator_initialized s" and "legal (s, []) (Init # cs)"
  shows "\<exists>s' hs bs fl. run (s, []) (Init # cs) = Some (s', hs) \<and>
           pool_walk s' 0 = Some bs \<and> chain s' (free_list_head s') fl \<and>
           distinct fl \<and> length fl \<le> length bs \<and>
           set fl = {b \<in> set bs. block_is_free s' b}"
proof -
  from run_after_Init [OF assms] obtain s' hs bs fl where
    r: "run (s, []) (Init # cs) = Some (s', hs)" and lay: "layout s' bs fl" by blast
  note o = layout_observed [OF lay]
  show ?thesis
  proof (intro exI conjI)
    show "run (s, []) (Init # cs) = Some (s', hs)" by (rule r)
    show "pool_walk s' 0 = Some (map (\<lambda>(b, n). at s' b) bs)" by (rule o(1))
    show "chain s' (free_list_head s') (map (at s') fl)" by (rule o(3))
    show "distinct (map (at s') fl)" by (rule o(4))
    show "length (map (at s') fl) \<le> length (map (\<lambda>(b, n). at s' b) bs)"
      using o(5) by simp
    show "set (map (at s') fl) = {b \<in> set (map (\<lambda>(b, n). at s' b) bs). block_is_free s' b}"
      by (rule o(6))
  qed
qed

theorem free_list_consistency_witness:
  "base_ok (startup 4096) \<and> \<not> allocator_initialized (startup 4096) \<and>
   legal (startup 4096, [])
     (Init # [Allocate 100, Allocate 200, Allocate 8, Deallocate 4120, Deallocate 4472,
              Deallocate 4120, Allocate 40]) \<and>
   (\<exists>s' hs bs fl. run (startup 4096, [])
       (Init # [Allocate 100, Allocate 200, Allocate 8, Deallocate 4120, Deallocate 4472,
                Deallocate 4120, Allocate 40]) = Some (s', hs) \<and>
       pool_walk s' 0 = Some bs \<and> chain s' (free_list_head s') fl \<and>
       distinct fl \<and> length fl \<le> length bs \<and>
       set fl = {b \<in> set bs. block_is_free s' b})"
proof -
  have l: "legal (startup 4096, [])
     (Init # [Allocate 100, Allocate 200, Allocate 8, Deallocate 4120, Deallocate 4472,
              Deallocate 4120, Allocate 40])"
    by (simp add: eval_rules)
  have b: "base_ok (startup 4096)" "\<not> allocator_initialized (startup 4096)"
    by (simp_all add: eval_rules)
  from free_list_consistency [OF b l] b l show ?thesis by blast
qed

text \<open>
  The claim as stated, for every state that calls can reach, fails: \<open>my_free\<close> of a
  pointer into the data of a block passes the bounds check, finds a zero where it
  expects \<open>is_free\<close>, and pushes that address onto the free list; the list then has two
  entries while the pool has one block, and its first entry is no block of the pool.
\<close>

theorem free_list_consistency_counterexample:
  "run (startup 4096, []) [Init, Deallocate 5144] \<noteq> None \<and>
   pool_walk (fst (the (run (startup 4096, []) [Init, Deallocate 5144]))) 0 = Some [4096] \<and>
   chain (fst (the (run (startup 4096, []) [Init, Deallocate 5144])))
     (free_list_head (fst (the (run (startup 4096, []) [Init, Deallocate 5144]))))
     [5120, 4096] \<and>
   \<not> length [5120, 4096 :: ptr] \<le> length [4096 :: ptr]"
  by (simp add: eval_rules)

text \<open>
  C3: on a well-formed (initialized) allocator, when \<open>my_malloc(N)\<close> with \<open>N > 0\<close> hands
  out the block \<open>B\<close> and the size \<open>v\<close> of \<open>B\<close> is at least the needed size plus
  \<open>sizeof(BlockHeader)\<close> plus \<open>ALIGNMENT\<close>, then afterwards \<open>B\<close> is allocated with exactly
  the needed size, a free block of size \<open>v\<close> minus the needed size starts right after it
  and carries the \<open>next_free\<close> that \<open>B\<close> had, the walk over the pool finds these two
  blocks where it found \<open>B\<close>, and the free list has the new block in the place of \<open>B\<close>:
  the head, or the \<open>next_free\<close> of the block before \<open>B\<close>, now points to it.
\<close>

theorem split_correctness:
  assumes wf: "well_formed s" and n: "n \<noteq> 0"
    and res: "my_malloc s n = Some (s', p)" and p: "p \<noteq> NULL"
    and B: "B = p - sizeof_BlockHeader" and N: "N = total_needed_size n"
    and sz: "get_size s B = Some v"
    and big: "N + sizeof_BlockHeader + ALIGNMENT \<le> v"
  shows "get_size s' B = Some N \<and> \<not> block_is_free s' B \<and>
         get_size s' (B + N) = Some (v - N) \<and> block_is_free s' (B + N) \<and>
         get_next_free s' (B + N) = get_next_free s B \<and>
         (\<exists>xs ys. pool_walk s 0 = Some (xs @ B # ys) \<and>
                  pool_walk s' 0 = Some (xs @ B # (B + N) # ys)) \<and>
         (\<exists>pre post. chain s (free_list_head s) (pre @ B # post) \<and>
                  chain s' (free_list_head s') (pre @ (B + N) # post) \<and>
                  (pre = [] \<longrightarrow> free_list_head s = B \<and> free_list_head s' = B + N) \<and>
                  (pre \<noteq> [] \<longrightarrow> free_list_head s' = free_list_head s \<and>
                     get_next_free s (last pre) = Some B \<and>
                     get_next_free s' (last pre) = Some (B + N)))"
proof -
  from wf obtain bs fl where lay: "layout s bs fl" by (auto simp: well_formed_def)
  from my_malloc_handout [OF lay n res p] obtain pre0 k post0 where
    fl: "fl = pre0 @ k # post0"
    and small: "\<forall>j \<in> set pre0. \<not> total_needed_size n \<le> memory_pool s j"
    and fit: "total_needed_size n \<le> memory_pool s k" and pk: "p = at s (k + 3)"
    by blast
  have Bk: "B = at s k" using B pk by (simp add: handle_block)
  have dis: "distinct fl" using lay by (simp add: layout_def)
  from lay [unfolded fl] n small fit show ?thesis
  proof (cases rule: my_malloc_result)
    case (consume m q t)
    from layout_flag(3) [OF lay consume(1)] sz Bk have v: "v = 8 * of_nat m" by simp
    from layout_block(2) [OF lay consume(1)] consume(4)
    have "q + 4 \<le> m" using big unfolding N consume(2) v by (simp add: big_cells)
    with consume(5) show ?thesis by simp
  next
    case (split m q t xs ys)
    from split(5) res have t: "t = s'" by simp
    note lay' = split(7) [unfolded t]
    note base = split(6) [unfolded t]
    have at': "at s' j = at s j" for j by (rule at_same_base [OF base])
    have km: "(k, m) \<in> set bs" using split(1) by simp
    from layout_flag(3) [OF lay km] sz Bk have v: "v = 8 * of_nat m" by simp
    have Nq: "N = 8 * of_nat q" using N split(2) by simp
    have BN: "B + N = at s (k + q)" using Bk Nq by (simp add: at_add)
    have in1: "(k, q) \<in> set (xs @ (k, q) # (k + q, m - q) # ys)" by simp
    have in2: "(k + q, m - q) \<in> set (xs @ (k, q) # (k + q, m - q) # ys)" by simp
    have c1: "get_size s' B = Some N"
      using layout_flag(3) [OF lay' in1] Bk Nq by (simp add: at')
    have k_out: "k \<notin> set (pre0 @ (k + q) # post0)" using dis fl split(3) by auto
    have c2: "\<not> block_is_free s' B"
      using layout_flag(2) [OF lay' in1] k_out Bk by (simp add: at')
    have "(8 * of_nat (m - q) :: 64 word) = 8 * of_nat m - 8 * of_nat q"
      using split(4) by (simp add: of_nat_diff algebra_simps)
    then have c3: "get_size s' (B + N) = Some (v - N)"
      using layout_flag(3) [OF lay' in2] BN v Nq by (simp add: at')
    have c4: "block_is_free s' (B + N)"
      using layout_flag(2) [OF lay' in2] BN by (simp add: at')
    let ?pre = "map (at s) pre0" and ?post = "map (at s) post0"
    have ch: "chain s (free_list_head s) (?pre @ B # ?post)"
      using layout_observed(3) [OF lay] fl Bk by simp
    have ch': "chain s' (free_list_head s') (?pre @ (B + N) # ?post)"
      using layout_observed(3) [OF lay'] BN by (simp add: at' cong: map_cong)
    have c5: "get_next_free s' (B + N) = get_next_free s B"
      using chain_next [OF ch] chain_next [OF ch'] by simp
    have c6: "\<exists>xs ys. pool_walk s 0 = Some (xs @ B # ys) \<and>
        pool_walk s' 0 = Some (xs @ B # (B + N) # ys)"
    proof (intro exI conjI)
      show "pool_walk s 0 = Some (map (\<lambda>(b, n). at s b) xs @ B # map (\<lambda>(b, n). at s b) ys)"
        using layout_observed(1) [OF lay] split(1) Bk by simp
      show "pool_walk s' 0 =
          Some (map (\<lambda>(b, n). at s b) xs @ B # (B + N) # map (\<lambda>(b, n). at s b) ys)"
        using layout_observed(1) [OF lay'] Bk BN by (simp add: at' cong: map_cong)
    qed
    have slot: "(?pre = [] \<longrightarrow> free_list_head s = B \<and> free_list_head s' = B + N) \<and>
        (?pre \<noteq> [] \<longrightarrow> free_list_head s' = free_list_head s \<and>
           get_next_free s (last ?pre) = Some B \<and>
           get_next_free s' (last ?pre) = Some (B + N))"
      using chain_slot [OF ch] chain_slot [OF ch'] by simp
    from c1 c2 c3 c4 c5 c6 ch ch' slot show ?thesis by blast
  qed
qed

theorem split_correctness_witness:
  "(case run (startup 4096, []) [Init, Allocate 100, Allocate 200, Deallocate 4120] of
      None \<Rightarrow> False
    | Some (s, hs) \<Rightarrow>
        well_formed s \<and> get_size s 4448 = Some 1048224 \<and>
        (case my_malloc s 200 of
           None \<Rightarrow> False
         | Some (s', p) \<Rightarrow>
             p = 4472 \<and> get_size s' 4448 = Some 224 \<and> \<not> block_is_free s' 4448 \<and>
             get_size s' 4672 = Some 1048000 \<and> block_is_free s' 4672 \<and>
             get_next_free s' 4672 = get_next_free s 4448 \<and>
             (\<exists>xs ys. pool_walk s 0 = Some (xs @ 4448 # ys) \<and>
                  pool_walk s' 0 = Some (xs @ 4448 # 4672 # ys)) \<and>
             (\<exists>pre post. chain s (free_list_head s) (pre @ 4448 # post) \<and>
                  chain s' (free_list_head s') (pre @ 4672 # post) \<and>
                  (pre = [] \<longrightarrow> free_list_head s = 4448 \<and> free_list_head s' = 4672) \<and>
                  (pre \<noteq> [] \<longrightarrow> free_list_head s' = free_list_head s \<and>
                     get_next_free s (last pre) = Some 4448 \<and>
                     get_next_free s' (last pre) = Some 4672))))"
proof -
  define s where "s = fst (the (run (startup 4096, [])
    (Init # [Allocate 100, Allocate 200, Deallocate 4120])))"
  define s' where "s' = fst (the (my_malloc s 200))"
  have r: "run (startup 4096, []) [Init, Allocate 100, Allocate 200, Deallocate 4120] =
      Some (s, [4248, 4120])"
    unfolding s_def by (simp add: eval_rules)
  have wf: "well_formed s"
    unfolding s_def by (rule well_formed_after_run) (simp_all add: eval_rules)
  have m: "my_malloc s 200 = Some (s', 4472)"
    unfolding s'_def s_def by (simp add: eval_rules)
  have sz: "get_size s (4472 - sizeof_BlockHeader) = Some 1048224"
    unfolding s_def by (simp add: eval_rules)
  have tn: "total_needed_size 200 = 224" by (simp add: eval_rules)
  have big: "total_needed_size 200 + sizeof_BlockHeader + ALIGNMENT \<le> (1048224 :: size_t)"
    by (simp add: eval_rules)
  have nn: "(4472 :: ptr) \<noteq> NULL" "(200 :: size_t) \<noteq> 0" by (simp_all add: NULL_def)
  from split_correctness [OF wf nn(2) m nn(1) refl refl sz big] sz
  show ?thesis unfolding r by (simp add: m tn sizeof_BlockHeader_def wf)
qed

text \<open>
  C4: on a well-formed (initialized) allocator, when \<open>my_malloc(N)\<close> with \<open>N > 0\<close> hands
  out the block \<open>B\<close> and the size \<open>v\<close> of \<open>B\<close> is below the needed size plus
  \<open>sizeof(BlockHeader)\<close> plus \<open>ALIGNMENT\<close>, then \<open>v\<close> is at least the needed size, \<open>B\<close>
  keeps the size \<open>v\<close> and is allocated afterwards, the walk over the pool finds the same
  blocks as before, and the free list is the old one without \<open>B\<close>: the head, or the
  \<open>next_free\<close> of the block before \<open>B\<close>, now holds the \<open>next_free\<close> that \<open>B\<close> had.
\<close>

theorem consume_whole_block:
  assumes wf: "well_formed s" and n: "n \<noteq> 0"
    and res: "my_malloc s n = Some (s', p)" and p: "p \<noteq> NULL"
    and B: "B = p - sizeof_BlockHeader" and N: "N = total_needed_size n"
    and sz: "get_size s B = Some v"
    and tight: "\<not> N + sizeof_BlockHeader + ALIGNMENT \<le> v"
  shows "N \<le> v \<and> get_size s' B = Some v \<and> \<not> block_is_free s' B \<and>
         pool_walk s' 0 = pool_walk s 0 \<and>
         (\<exists>pre post. chain s (free_list_head s) (pre @ B # post) \<and>
                  chain s' (free_list_head s') (pre @ post) \<and>
                  (pre = [] \<longrightarrow> free_list_head s = B \<and>
                     Some (free_list_head s') = get_next_free s B) \<and>
                  (pre \<noteq> [] \<longrightarrow> free_list_head s' = free_list_head s \<and>
                     get_next_free s (last pre) = Some B \<and>
                     get_next_free s' (last pre) = get_next_free s B))"
proof -
  from wf obtain bs fl where lay: "layout s bs fl" by (auto simp: well_formed_def)
  from my_malloc_handout [OF lay n res p] obtain pre0 k post0 where
    fl: "fl = pre0 @ k # post0"
    and small: "\<forall>j \<in> set pre0. \<not> total_needed_size n \<le> memory_pool s j"
    and fit: "total_needed_size n \<le> memory_pool s k" and pk: "p = at s (k + 3)"
    by blast
  have Bk: "B = at s k" using B pk by (simp add: handle_block)
  have dis: "distinct fl" using lay by (simp add: layout_def)
  from lay [unfolded fl] n small fit show ?thesis
  proof (cases rule: my_malloc_result)
    case (split m q t xs ys)
    have km: "(k, m) \<in> set bs" using split(1) by simp
    from layout_flag(3) [OF lay km] sz Bk have v: "v = 8 * of_nat m" by simp
    from layout_block(2) [OF lay km] split(4)
    have "N + sizeof_BlockHeader + ALIGNMENT \<le> v"
      unfolding N split(2) v by (simp add: big_cells)
    with tight show ?thesis by simp
  next
    case (consume m q t)
    from consume(6) res have t: "t = s'" by simp
    note lay' = consume(8) [unfolded t]
    note base = consume(7) [unfolded t]
    note km = consume(1)
    have at': "at s' j = at s j" for j by (rule at_same_base [OF base])
    from layout_flag(3) [OF lay km] layout_block(3) [OF lay km] sz Bk
    have v: "v = 8 * of_nat m" and vm: "v = memory_pool s k" by simp_all
    have c0: "N \<le> v" using fit N vm by simp
    have c1: "get_size s' B = Some v"
      using layout_flag(3) [OF lay' km] Bk v by (simp add: at')
    have k_out: "k \<notin> set (pre0 @ post0)" using dis fl by auto
    have c2: "\<not> block_is_free s' B"
      using layout_flag(2) [OF lay' km] k_out Bk by (simp add: at')
    have c3: "pool_walk s' 0 = pool_walk s 0"
      using layout_observed(1) [OF lay] layout_observed(1) [OF lay']
      by (simp add: at' cong: map_cong)
    let ?pre = "map (at s) pre0" and ?post = "map (at s) post0"
    have ch: "chain s (free_list_head s) (?pre @ B # ?post)"
      using layout_observed(3) [OF lay] fl Bk by simp
    have ch': "chain s' (free_list_head s') (?pre @ ?post)"
      using layout_observed(3) [OF lay'] by (simp add: at' cong: map_cong)
    have slot: "(?pre = [] \<longrightarrow> free_list_head s = B \<and>
          Some (free_list_head s') = get_next_free s B) \<and>
        (?pre \<noteq> [] \<longrightarrow> free_list_head s' = free_list_head s \<and>
           get_next_free s (last ?pre) = Some B \<and>
           get_next_free s' (last ?pre) = get_next_free s B)"
      using chain_slot [OF ch] chain_slot [OF ch'] chain_next [OF ch] by simp
    from c0 c1 c2 c3 ch ch' slot show ?thesis by blast
  qed
qed

theorem consume_whole_block_witness:
  "(case run (startup 4096, [])
           [Init, Allocate 100, Allocate 200, Deallocate 4248, Deallocate 4120] of
      None \<Rightarrow> False
    | Some (s, hs) \<Rightarrow>
        well_formed s \<and> get_size s 4224 = Some 224 \<and> total_needed_size 190 = 216 \<and>
        (case my_malloc s 190 of
           None \<Rightarrow> False
         | Some (s', p) \<Rightarrow>
             p = 4248 \<and> get_size s' 4224 = Some 224 \<and> \<not> block_is_free s' 4224 \<and>
             pool_walk s' 0 = pool_walk s 0 \<and>
             (\<exists>pre post. chain s (free_list_head s) (pre @ 4224 # post) \<and>
                  chain s' (free_list_head s') (pre @ post) \<and>
                  (pre = [] \<longrightarrow> free_list_head s = 4224 \<and>
                     Some (free_list_head s') = get_next_free s 4224) \<and>
                  (pre \<noteq> [] \<longrightarrow> free_list_head s' = free_list_head s \<and>
                     get_next_free s (last pre) = Some 4224 \<and>
                     get_next_free s' (last pre) = get_next_free s 4224))))"
proof -
  define s where "s = fst (the (run (startup 4096, [])
    (Init # [Allocate 100, Allocate 200, Deallocate 4248, Deallocate 4120])))"
  define s' where "s' = fst (the (my_malloc s 190))"
  have r: "run (startup 4096, [])
      [Init, Allocate 100, Allocate 200, Deallocate 4248, Deallocate 4120] =
      Some (s, [4248, 4120])"
    unfolding s_def by (simp add: eval_rules)
  have wf: "well_formed s"
    unfolding s_def by (rule well_formed_after_run) (simp_all add: eval_rules)
  have m: "my_malloc s 190 = Some (s', 4248)"
    unfolding s'_def s_def by (simp add: eval_rules)
  have sz: "get_size s (4248 - sizeof_BlockHeader) = Some 224"
    unfolding s_def by (simp add: eval_rules)
  have tn: "total_needed_size 190 = 216" by (simp add: eval_rules)
  have tight: "\<not> total_needed_size 190 + sizeof_BlockHeader + ALIGNMENT \<le> (224 :: size_t)"
    by (simp add: eval_rules)
  have nn: "(4248 :: ptr) \<noteq> NULL" "(190 :: size_t) \<noteq> 0" by (simp_all add: NULL_def)
  from consume_whole_block [OF wf nn(2) m nn(1) refl refl sz tight] sz
  show ?thesis unfolding r by (simp add: m tn sizeof_BlockHeader_def wf)
qed

text \<open>
  C5: the claim is that \<open>my_malloc(N)\<close> hands out the first block in link order whose
  size is at least the size needed for \<open>N\<close>, the sum of \<open>N\<close> and the header size rounded
  up. The code does so for the size it computes in \<open>size_t\<close>, but in line 92 the sum
  wraps around for the 31 largest values of \<open>N\<close>. On the freshly initialized pool and for
  \<open>N = 2 ^ 64 - 1\<close> the only free block has 1048576 bytes, fewer than the size needed,
  \<open>2 ^ 64 + 24\<close>, and \<open>my_malloc\<close> hands it out all the same: it returns the address
  after the header of that block and leaves an allocated block of 32 bytes there.
\<close>

theorem first_fit_selection_overflow:
  "my_allocator_init (startup 4096) \<noteq> None \<and>
   chain (the (my_allocator_init (startup 4096)))
     (free_list_head (the (my_allocator_init (startup 4096)))) [4096] \<and>
   get_size (the (my_allocator_init (startup 4096))) 4096 = Some 1048576 \<and>
   needed_spec (unat (18446744073709551615 :: size_t)) = 18446744073709551640 \<and>
   unat (1048576 :: size_t) < needed_spec (unat (18446744073709551615 :: size_t)) \<and>
   my_malloc (the (my_allocator_init (startup 4096))) 18446744073709551615 \<noteq> None \<and>
   snd (the (my_malloc (the (my_allocator_init (startup 4096))) 18446744073709551615)) =
     4096 + sizeof_BlockHeader \<and>
   get_size (fst (the (my_malloc (the (my_allocator_init (startup 4096)))
     18446744073709551615))) 4096 = Some 32 \<and>
   \<not> block_is_free (fst (the (my_malloc (the (my_allocator_init (startup 4096)))
     18446744073709551615))) 4096"
  by (simp add: eval_rules needed_spec_def)

text \<open>
  C6: \<open>my_free\<close> leaves the state as it is, pool and free-list head included, when its
  argument is \<open>NULL\<close>, when the header address derived from it fails the bounds check,
  or when the \<open>is_free\<close> field read at that address is already set.
\<close>

theorem my_free_rejected:
  assumes "p = NULL \<or> rejected_by_bounds s p \<or>
           (\<exists>v. get_is_free s (p - sizeof_BlockHeader) = Some v \<and> v \<noteq> 0)"
  shows "my_free s p = Some s"
  using assms by (auto simp: my_free_def rejected_by_bounds_def)

theorem my_free_rejected_witness:
  "my_free (after_init (startup 4096)) NULL = Some (after_init (startup 4096)) \<and>
   rejected_by_bounds (after_init (startup 4096)) 100 \<and>
   my_free (after_init (startup 4096)) 100 = Some (after_init (startup 4096)) \<and>
   get_is_free (after_init (startup 4096)) (4120 - sizeof_BlockHeader) = Some 1 \<and>
   my_free (after_init (startup 4096)) 4120 = Some (after_init (startup 4096))"
proof -
  let ?s = "after_init (startup 4096)"
  have r: "rejected_by_bounds ?s 100"
    by (simp add: model_defs after_init_def)
  have f: "get_is_free ?s (4120 - sizeof_BlockHeader) = Some 1"
    by (simp add: model_defs after_init_def flag_set)
  from f have "\<exists>v. get_is_free ?s (4120 - sizeof_BlockHeader) = Some v \<and> v \<noteq> 0" by simp
  with r f my_free_rejected [of NULL ?s] my_free_rejected [of 100 ?s]
    my_free_rejected [of 4120 ?s]
  show ?thesis by simp
qed

text \<open>
  C7, as amended: on an initialized allocator \<open>my_malloc(0)\<close> returns \<open>NULL\<close> and
  changes nothing; on an allocator not yet initialized it returns \<open>NULL\<close> after running
  \<open>my_allocator_init\<close>, and leaves the state that \<open>my_allocator_init\<close> produces.
\<close>

theorem my_malloc_zero:
  "(allocator_initialized s \<longrightarrow> my_malloc s 0 = Some (s, NULL)) \<and>
   (\<not> allocator_initialized s \<longrightarrow>
      my_malloc s 0 = map_option (\<lambda>s'. (s', NULL)) (my_allocator_init s))"
  by (cases "my_allocator_init s") (simp_all add: my_malloc_def)

theorem my_malloc_zero_witness:
  "allocator_initialized (after_init (startup 4096)) \<and>
   my_malloc (after_init (startup 4096)) 0 = Some (after_init (startup 4096), NULL) \<and>
   \<not> allocator_initialized (startup 4096) \<and>
   my_malloc (startup 4096) 0 = Some (after_init (startup 4096), NULL)"
proof -
  have "base_ok (startup 4096)" by (simp add: base_ok_def startup_def)
  then have "my_allocator_init (startup 4096) = Some (after_init (startup 4096))"
    by (rule my_allocator_init_fresh) (simp add: startup_def)
  with my_malloc_zero [of "after_init (startup 4096)"] my_malloc_zero [of "startup 4096"]
  show ?thesis by (simp add: after_init_def startup_def)
qed

text \<open>
  The claim as stated fails on the allocator that has not been initialized: there
  \<open>my_malloc(0)\<close> returns \<open>NULL\<close> but has set the free-list head and written the header
  of the first block.
\<close>

theorem my_malloc_zero_counterexample:
  "my_malloc (startup 4096) 0 \<noteq> None \<and>
   snd (the (my_malloc (startup 4096) 0)) = NULL \<and>
   free_list_head (startup 4096) = 0 \<and>
   free_list_head (fst (the (my_malloc (startup 4096) 0))) = 4096 \<and>
   get_size (startup 4096) 4096 = Some 0 \<and>
   get_size (fst (the (my_malloc (startup 4096) 0))) 4096 = Some 1048576"
  by (simp add: model_defs)

text \<open>
  C8: the claim is that \<open>my_malloc(N)\<close> returns \<open>NULL\<close> and changes nothing when no
  block of the free list has the size needed for \<open>N\<close>. The code does so for the size it
  computes in \<open>size_t\<close>, but not where the sum of line 92 wraps around. On the freshly
  initialized pool and for \<open>N = 2 ^ 64 - 1\<close> the only free block has 1048576 bytes,
  fewer than the size needed, and \<open>my_malloc\<close> does not return \<open>NULL\<close>: it returns the
  address 24 bytes into the pool and moves the head of the free list.
\<close>

theorem my_malloc_out_of_memory_overflow:
  "my_allocator_init (startup 4096) \<noteq> None \<and>
   chain (the (my_allocator_init (startup 4096)))
     (free_list_head (the (my_allocator_init (startup 4096)))) [4096] \<and>
   get_size (the (my_allocator_init (startup 4096))) 4096 = Some 1048576 \<and>
   unat (1048576 :: size_t) < needed_spec (unat (18446744073709551615 :: size_t)) \<and>
   my_malloc (the (my_allocator_init (startup 4096))) 18446744073709551615 \<noteq> None \<and>
   my_malloc (the (my_allocator_init (startup 4096))) 18446744073709551615 \<noteq>
     Some (the (my_allocator_init (startup 4096)), NULL) \<and>
   snd (the (my_malloc (the (my_allocator_init (startup 4096))) 18446744073709551615)) = 4120 \<and>
   free_list_head (the (my_allocator_init (startup 4096))) = 4096 \<and>
   free_list_head (fst (the (my_malloc (the (my_allocator_init (startup 4096)))
     18446744073709551615))) = 4128"
  by (simp add: eval_rules needed_spec_def)

text \<open>
  C9: on a well-formed allocator, or on one that is not initialized yet and whose pool
  is placed without wrapping around the address space, every non-null pointer that
  \<open>my_malloc\<close> returns is the start of a block of the pool, allocated after the call,
  plus \<open>sizeof(BlockHeader)\<close>; it lies at least \<open>sizeof(BlockHeader)\<close> bytes after the
  start of the pool and before its end, and is a multiple of 8 when the address of the
  pool is.
\<close>

theorem handle_aligned_interior:
  assumes st: "well_formed s \<or> (base_ok s \<and> \<not> allocator_initialized s)"
    and res: "my_malloc s n = Some (s', p)" and p: "p \<noteq> NULL"
  shows "(\<exists>bs. pool_walk s' 0 = Some bs \<and> p - sizeof_BlockHeader \<in> set bs) \<and>
         \<not> block_is_free s' (p - sizeof_BlockHeader) \<and>
         unat (pool_base s) + unat sizeof_BlockHeader \<le> unat p \<and>
         unat p < unat (pool_base s) + unat POOL_SIZE \<and>
         (8 dvd unat (pool_base s) \<longrightarrow> 8 dvd unat p)"
proof -
  obtain t where wf: "well_formed t" and base: "pool_base t = pool_base s"
    and rt: "my_malloc t n = Some (s', p)"
  proof (cases "well_formed s")
    case True
    with res show ?thesis by (intro that [of s]) simp_all
  next
    case False
    with st have ok: "base_ok s" and un: "\<not> allocator_initialized s" by simp_all
    have "well_formed (after_init s)"
      using layout_after_init [OF ok] by (auto simp: well_formed_def)
    moreover have "pool_base (after_init s) = pool_base s" by (simp add: after_init_def)
    moreover have "my_malloc (after_init s) n = Some (s', p)"
      using my_malloc_fresh [OF ok un, of n] res by simp
    ultimately show ?thesis by (rule that)
  qed
  from wf obtain bs fl where lay: "layout t bs fl" by (auto simp: well_formed_def)
  then have ok: "base_ok t" and ini: "allocator_initialized t" by (simp_all add: layout_def)
  have n: "n \<noteq> 0"
  proof
    assume "n = 0"
    with ini rt p show False by (simp add: my_malloc_def)
  qed
  from my_malloc_handout [OF lay n rt p] obtain pre0 k post0 where
    fl: "fl = pre0 @ k # post0"
    and small: "\<forall>j \<in> set pre0. \<not> total_needed_size n \<le> memory_pool t j"
    and fit: "total_needed_size n \<le> memory_pool t k" and pk: "p = at t (k + 3)"
    by blast
  have "k \<in> set fl" using fl by simp
  from layout_free_block [OF lay this] obtain m where km: "(k, m) \<in> set bs" by auto
  note blk = layout_block [OF lay km]
  have k3: "k + 3 \<le> 131072" using blk by simp
  have up: "unat p = unat (pool_base s) + 8 * (k + 3)"
    using unat_at [OF ok k3] pk base by simp
  have dis: "distinct fl" using lay by (simp add: layout_def)
  have blocks: "(\<exists>bs. pool_walk s' 0 = Some bs \<and> p - sizeof_BlockHeader \<in> set bs) \<and>
      \<not> block_is_free s' (p - sizeof_BlockHeader)"
    using lay [unfolded fl] n small fit
  proof (cases rule: my_malloc_result)
    case (split m q u xs ys)
    from split(5) rt have u: "u = s'" by simp
    note lay' = split(7) [unfolded u]
    have a: "at s' k = at t k" by (rule at_same_base [OF split(6) [unfolded u]])
    have in1: "(k, q) \<in> set (xs @ (k, q) # (k + q, m - q) # ys)" by simp
    have "k \<notin> set (pre0 @ (k + q) # post0)" using dis fl split(3) by auto
    with layout_flag(2) [OF lay' in1] a pk have "\<not> block_is_free s' (p - sizeof_BlockHeader)"
      by (simp add: handle_block)
    with layout_observed(1) [OF lay'] a pk show ?thesis
      by (simp add: handle_block)
  next
    case (consume m q u)
    from consume(6) rt have u: "u = s'" by simp
    note lay' = consume(8) [unfolded u]
    have a: "at s' k = at t k" by (rule at_same_base [OF consume(7) [unfolded u]])
    have "at s' k \<in> set (map (\<lambda>(b, n). at s' b) bs)"
      using consume(1) by force
    moreover have "k \<notin> set (pre0 @ post0)" using dis fl by auto
    with layout_flag(2) [OF lay' consume(1)] a pk
    have "\<not> block_is_free s' (p - sizeof_BlockHeader)"
      by (simp add: handle_block)
    ultimately show ?thesis
      using layout_observed(1) [OF lay'] a pk by (simp add: handle_block)
  qed
  have "unat (pool_base s) + unat sizeof_BlockHeader \<le> unat p"
    using up by (simp add: sizeof_BlockHeader_def)
  moreover have "unat p < unat (pool_base s) + unat POOL_SIZE"
    using up blk by (simp add: POOL_SIZE_def)
  moreover have "8 dvd unat (pool_base s) \<longrightarrow> 8 dvd unat p"
    using up by simp
  ultimately show ?thesis using blocks by blast
qed

theorem handle_aligned_interior_witness:
  "base_ok (startup 4096) \<and> \<not> allocator_initialized (startup 4096) \<and>
   (case my_malloc (startup 4096) 100 of
      None \<Rightarrow> False
    | Some (s', p) \<Rightarrow>
        p = 4120 \<and> p \<noteq> NULL \<and>
        (\<exists>bs. pool_walk s' 0 = Some bs \<and> p - sizeof_BlockHeader \<in> set bs) \<and>
        \<not> block_is_free s' (p - sizeof_BlockHeader) \<and>
        unat (pool_base (startup 4096)) + unat sizeof_BlockHeader \<le> unat p \<and>
        unat p < unat (pool_base (startup 4096)) + unat POOL_SIZE \<and>
        8 dvd unat (pool_base (startup 4096)) \<and> 8 dvd unat p)"
proof -
  define s' where "s' = fst (the (my_malloc (startup 4096) 100))"
  have m: "my_malloc (startup 4096) 100 = Some (s', 4120)"
    unfolding s'_def by (simp add: eval_rules)
  have b: "base_ok (startup 4096)" "\<not> allocator_initialized (startup 4096)"
    "8 dvd unat (pool_base (startup 4096))"
    by (simp_all add: eval_rules)
  have nn: "(4120 :: ptr) \<noteq> NULL" by (simp add: NULL_def)
  from b have st: "well_formed (startup 4096) \<or>
      (base_ok (startup 4096) \<and> \<not> allocator_initialized (startup 4096))" by simp
  from handle_aligned_interior [OF st m nn] b nn
  show ?thesis by (simp add: m)
qed

text \<open>
  C10: while the allocator has never been initialized, \<open>my_free\<close> returns for every
  pointer, null or not, with the state as it was: no header is read or written (the
  result does not depend on the contents of the pool), and the allocator stays
  uninitialized, whereas \<open>my_malloc\<close> initializes it.
\<close>

theorem my_free_before_init:
  assumes "\<not> allocator_initialized s"
  shows "my_free s p = Some s \<and>
         (base_ok s \<longrightarrow> (\<exists>s' r. my_malloc s n = Some (s', r) \<and> allocator_initialized s'))"
proof
  show "my_free s p = Some s" using assms by (simp add: my_free_def)
  show "base_ok s \<longrightarrow> (\<exists>s' r. my_malloc s n = Some (s', r) \<and> allocator_initialized s')"
  proof
    assume ok: "base_ok s"
    from my_malloc_config_ok [OF config_ok_after_init [OF ok], of n]
    obtain s' r where "my_malloc (after_init s) n = Some (s', r)" "config_ok (s', [r])"
      by blast
    then show "\<exists>s' r. my_malloc s n = Some (s', r) \<and> allocator_initialized s'"
      using my_malloc_fresh [OF ok assms, of n] by (auto simp: config_ok_def layout_def)
  qed
qed

theorem my_free_before_init_witness:
  "\<not> allocator_initialized (startup 4096) \<and>
   my_free (startup 4096) 4120 = Some (startup 4096) \<and>
   base_ok (startup 4096) \<and>
   (\<exists>s' r. my_malloc (startup 4096) 100 = Some (s', r) \<and> allocator_initialized s')"
  using my_free_before_init [of "startup 4096" 4120 100]
  by (simp add: startup_def base_ok_def)

end
